theory Spec2Isabelle
  imports Complex_Main
begin

section \<open>Data model\<close>

text \<open>
  JavaScript numbers are modelled by exact numbers: coordinates, dimensions and font
  sizes by \<open>real\<close>, page indices, page counts, rotation flags and stamp numbers by
  \<open>int\<close>. Rounding of IEEE doubles is not part of the model.
\<close>

text \<open>
  \<open>interface StampPlacement { pageIndex; x; y; number }\<close>. The fields of the three
  interfaces carry a prefix (\<open>pl\<close>, \<open>cfg\<close>, \<open>pc\<close>), so that the parameters and locals of
  the same names keep theirs.
\<close>

record StampPlacement =
  plPageIndex :: int
  plX :: real
  plY :: real
  plNumber :: int

text \<open>\<open>interface StampConfig { lawyerName; bottomText; radius }\<close>\<close>

record StampConfig =
  cfgLawyerName :: string
  cfgBottomText :: string
  cfgRadius :: real

text \<open>
  A page as \<open>pdf-lib\<close> shows it to the program: the size of its media box
  (\<open>getSize\<close>), its rotation flag (\<open>getRotation().angle\<close>) and what has been drawn on
  it. \<open>Original n\<close> stands for the content a source page came with; \<open>DrawStamp\<close> is one
  call of \<open>drawStampOnPage\<close> with its centre, outer radius, the two texts and the
  number; \<open>DrawPage\<close> is one call of \<open>drawPage\<close> with the embedded page and the
  optional \<open>(x, y, rotate)\<close>. A page with the empty list has no content stream: it
  is what \<open>addPage\<close> makes before anything is drawn on it.
\<close>

datatype page = Page (pwidth: real) (pheight: real) (protation: int) (pcontents: "draw_op list")
  and draw_op =
      Original nat
    | DrawStamp real real real string string int
    | DrawPage page "(real \<times> real \<times> real) option"

type_synonym doc = "page list"

text \<open>
  A byte buffer is modelled by what \<open>PDFDocument.load\<close> makes of it: either it does not
  decode, or it decodes to a list of pages.
\<close>

datatype pdf_bytes = Undecodable | Pdf doc

text \<open>\<open>interface PieceDocument { id; fileName; displayName?; pdfBuffer; totalPages; placements }\<close>\<close>

record PieceDocument =
  pcId :: string
  pcFileName :: string
  pcDisplayName :: "string option"
  pcPdfBuffer :: pdf_bytes
  pcTotalPages :: int
  pcPlacements :: "StampPlacement list"

section \<open>Renumbering\<close>

text \<open>
  The counter \<open>num\<close> of \<open>recalculateNumbers\<close> is a JavaScript number, here an integer
  that a double holds, and \<open>num++\<close> adds 1 in double arithmetic: the sum, rounded to the
  nearest double, ties to the even significand. From \<open>-2\<^sup>5\<^sup>3\<close> up to \<open>2\<^sup>5\<^sup>3 - 1\<close> the sum
  is exact. Up to magnitude \<open>2\<^sup>5\<^sup>4\<close> the doubles are the even integers, so the sum lies
  halfway between \<open>n\<close> and \<open>n + 2\<close> and the one with the even half is taken. Beyond
  that the doubles lie 4 or more apart and the sum rounds back to \<open>n\<close>.
\<close>

definition jsIncrement :: "int \<Rightarrow> int" where
  "jsIncrement n =
     (if - (2 ^ 53) \<le> n \<and> n < 2 ^ 53 then n + 1
      else if \<bar>n\<bar> \<le> 2 ^ 54 then (if even (n div 2) then n else n + 2)
      else n)"

text \<open>
  \<open>recalculateNumbers\<close> keeps the one counter across the outer \<open>map\<close> over the pieces
  and the inner \<open>map\<close> over a piece's placements (\<open>number: num++\<close>). The counter is
  passed explicitly: each function returns the counter it leaves behind.
\<close>

fun renumberPlacements :: "int \<Rightarrow> StampPlacement list \<Rightarrow> StampPlacement list \<times> int" where
  "renumberPlacements num [] = ([], num)"
| "renumberPlacements num (pl # pls) =
     (case renumberPlacements (jsIncrement num) pls of
        (rest, num') \<Rightarrow> (pl\<lparr>plNumber := num\<rparr> # rest, num'))"

fun renumberPieces :: "int \<Rightarrow> PieceDocument list \<Rightarrow> PieceDocument list" where
  "renumberPieces num [] = []"
| "renumberPieces num (piece # pieces) =
     (if length (pcPlacements piece) = 0 then piece # renumberPieces num pieces
      else (case renumberPlacements num (pcPlacements piece) of
              (newPlacements, num') \<Rightarrow>
                piece\<lparr>pcPlacements := newPlacements\<rparr> # renumberPieces num' pieces))"

definition recalculateNumbers :: "PieceDocument list \<Rightarrow> int \<Rightarrow> PieceDocument list" where
  "recalculateNumbers pieces start = renumberPieces start pieces"

text \<open>The stamp numbers of a list of pieces, read in list order.\<close>

definition numbersOf :: "PieceDocument list \<Rightarrow> int list" where
  "numbersOf pieces = map plNumber (concat (map pcPlacements pieces))"

text \<open>A piece with every stamp number blanked: what is left is everything else.\<close>

definition eraseNumbers :: "PieceDocument \<Rightarrow> PieceDocument" where
  "eraseNumbers piece = piece\<lparr>pcPlacements := map (\<lambda>pl. pl\<lparr>plNumber := 0\<rparr>) (pcPlacements piece)\<rparr>"

section \<open>Coordinate mapper\<close>

text \<open>
  The two fields of the \<open>DOMRect\<close> that \<open>screenToPdf\<close> reads. A returned object
  \<open>{ x, y }\<close> is a pair. Division is the division of the reals, so the model follows the
  code only where the display and page dimensions are not zero.
\<close>

record DOMRect =
  rectLeft :: real
  rectTop :: real

definition screenToPdf ::
  "real \<Rightarrow> real \<Rightarrow> DOMRect \<Rightarrow> real \<Rightarrow> real \<Rightarrow> real \<Rightarrow> real \<Rightarrow> real \<times> real" where
  "screenToPdf mouseX mouseY containerRect pdfPageWidth pdfPageHeight displayWidth displayHeight =
     (let relX = mouseX - rectLeft containerRect;
          relY = mouseY - rectTop containerRect;
          normX = relX / displayWidth;
          normY = relY / displayHeight
      in (normX * pdfPageWidth, (1 - normY) * pdfPageHeight))"

definition pdfToScreen ::
  "real \<Rightarrow> real \<Rightarrow> real \<Rightarrow> real \<Rightarrow> real \<Rightarrow> real \<Rightarrow> real \<times> real" where
  "pdfToScreen pdfX pdfY pdfPageWidth pdfPageHeight displayWidth displayHeight =
     (let normX = pdfX / pdfPageWidth;
          normY = pdfY / pdfPageHeight
      in (normX * displayWidth, (1 - normY) * displayHeight))"

text \<open>The composition the round trip is about: a pointer position mapped to the page and back.\<close>

definition roundTrip ::
  "real \<Rightarrow> real \<Rightarrow> DOMRect \<Rightarrow> real \<Rightarrow> real \<Rightarrow> real \<Rightarrow> real \<Rightarrow> real \<times> real" where
  "roundTrip mouseX mouseY containerRect pdfPageWidth pdfPageHeight displayWidth displayHeight =
     (case screenToPdf mouseX mouseY containerRect pdfPageWidth pdfPageHeight
             displayWidth displayHeight of
        (pdfX, pdfY) \<Rightarrow>
          pdfToScreen pdfX pdfY pdfPageWidth pdfPageHeight displayWidth displayHeight)"

section \<open>Arc text fitting\<close>

text \<open>
  \<open>fitFontSize\<close> and \<open>fitFontSizeCanvas\<close> are the same loop over two ways of measuring a
  glyph (\<open>font.widthOfTextAtSize(c, fontSize)\<close> and \<open>ctx.measureText(c).width\<close> after the
  font has been set to \<open>fontSize\<close>). The measure is the parameter \<open>widthOf\<close>; \<open>chars\<close> is
  \<open>Array.from(text)\<close>. The quotient \<open>totalWidth / radius\<close> is the division of the reals, so
  the model follows the code only where \<open>radius\<close> is not zero.
\<close>

definition totalWidth :: "('c \<Rightarrow> real \<Rightarrow> real) \<Rightarrow> 'c list \<Rightarrow> real \<Rightarrow> real" where
  "totalWidth widthOf chars fontSize =
     (let spacing = fontSize * 0.08
      in foldl (\<lambda>sum c. sum + widthOf c fontSize) 0 chars
         + spacing * (real (length chars) - 1))"

definition totalAngle :: "('c \<Rightarrow> real \<Rightarrow> real) \<Rightarrow> 'c list \<Rightarrow> real \<Rightarrow> real \<Rightarrow> real" where
  "totalAngle widthOf chars radius fontSize = totalWidth widthOf chars fontSize / radius"

text \<open>
  The loop \<open>for (attempt = 0; attempt < 20; attempt++)\<close>. It returns the font size the
  loop ends with and, beside it, the sizes at which \<open>totalAngle <= maxAngle\<close> was
  evaluated, in the order of the attempts.
\<close>

function fitLoop ::
  "('c \<Rightarrow> real \<Rightarrow> real) \<Rightarrow> 'c list \<Rightarrow> real \<Rightarrow> real \<Rightarrow> nat \<Rightarrow> real \<Rightarrow> real \<times> real list" where
  "fitLoop widthOf chars radius maxAngle attempt fontSize =
     (if attempt < 20 then
        (if totalAngle widthOf chars radius fontSize \<le> maxAngle then (fontSize, [fontSize])
         else (case fitLoop widthOf chars radius maxAngle (attempt + 1) (fontSize * 0.9) of
                 (result, tried) \<Rightarrow> (result, fontSize # tried)))
      else (fontSize, []))"
  by pat_completeness auto
termination
  by (relation "measure (\<lambda>(widthOf, chars, radius, maxAngle, attempt, fontSize). 20 - attempt)") auto

declare fitLoop.simps [simp del]

definition fitFontSize :: "('c \<Rightarrow> real \<Rightarrow> real) \<Rightarrow> 'c list \<Rightarrow> real \<Rightarrow> real \<Rightarrow> real \<Rightarrow> real" where
  "fitFontSize widthOf text maxFontSize radius maxAngle =
     fst (fitLoop widthOf text radius maxAngle 0 maxFontSize)"

definition triedSizes :: "('c \<Rightarrow> real \<Rightarrow> real) \<Rightarrow> 'c list \<Rightarrow> real \<Rightarrow> real \<Rightarrow> real \<Rightarrow> real list" where
  "triedSizes widthOf text maxFontSize radius maxAngle =
     snd (fitLoop widthOf text radius maxAngle 0 maxFontSize)"

text \<open>
  A measure that is linear in the font size: the glyph's width at size 1 times the size,
  as a font's metrics give it.
\<close>

definition scaledWidth :: "('c \<Rightarrow> real) \<Rightarrow> 'c \<Rightarrow> real \<Rightarrow> real" where
  "scaledWidth unitWidth c fontSize = unitWidth c * fontSize"

section \<open>The document library\<close>

text \<open>
  The calls of \<open>pdf-lib\<close> the program makes, on documents as lists of pages. A call that
  throws returns the error: \<open>PDFDocument.load\<close> on bytes that do not decode, and
  \<open>getPage\<close>, \<open>removePage\<close>, \<open>insertPage\<close> and \<open>copyPages\<close> on an index with no page
  behind it. \<open>NullError\<close> is a read through \<open>null\<close> or \<open>undefined\<close> in the program
  itself; \<open>InvalidPageIndex\<close> is the error the \<open>split-pdf\<close> handler throws.
  \<open>EncodingError\<close> is the font refusing a character it cannot encode, and
  \<open>MissingPageContents\<close> is \<open>save\<close> refusing to embed a page that has no content
  stream ("Can't embed page with missing Contents").
\<close>

datatype error =
    DocumentLoadError | IndexError | NullError | InvalidPageIndex
  | EncodingError | MissingPageContents

definition pdfLoad :: "pdf_bytes \<Rightarrow> error + doc" where
  "pdfLoad buffer = (case buffer of Undecodable \<Rightarrow> Inl DocumentLoadError | Pdf d \<Rightarrow> Inr d)"

text \<open>\<open>addPage()\<close> with no argument adds an empty A4 page.\<close>

definition blankPage :: page where
  "blankPage = Page 595.28 841.89 0 []"

text \<open>
  \<open>save()\<close> with its default options (\<open>addDefaultPage\<close> is on) adds a blank page to a
  document that has none, then writes the pages.
\<close>

definition pdfSave :: "doc \<Rightarrow> pdf_bytes" where
  "pdfSave d = Pdf (if d = [] then [blankPage] else d)"

definition getPageCount :: "doc \<Rightarrow> int" where
  "getPageCount d = int (length d)"

definition inRange :: "doc \<Rightarrow> int \<Rightarrow> bool" where
  "inRange d i = (0 \<le> i \<and> i < getPageCount d)"

definition getPage :: "doc \<Rightarrow> int \<Rightarrow> error + page" where
  "getPage d i = (if inRange d i then Inr (d ! nat i) else Inl IndexError)"

definition removePage :: "doc \<Rightarrow> int \<Rightarrow> error + doc" where
  "removePage d i =
     (if inRange d i then Inr (take (nat i) d @ drop (Suc (nat i)) d) else Inl IndexError)"

definition insertPage :: "doc \<Rightarrow> int \<Rightarrow> page \<Rightarrow> error + doc" where
  "insertPage d i p =
     (if 0 \<le> i \<and> i \<le> getPageCount d then Inr (take (nat i) d @ p # drop (nat i) d)
      else Inl IndexError)"

definition addPage :: "doc \<Rightarrow> page \<Rightarrow> doc" where
  "addPage d p = d @ [p]"

definition getPageIndices :: "doc \<Rightarrow> int list" where
  "getPageIndices d = map int [0..<length d]"

fun copyPages :: "doc \<Rightarrow> int list \<Rightarrow> error + page list" where
  "copyPages srcDoc [] = Inr []"
| "copyPages srcDoc (i # indices) =
     (if inRange srcDoc i then
        (case copyPages srcDoc indices of
           Inl e \<Rightarrow> Inl e
         | Inr copied \<Rightarrow> Inr (srcDoc ! nat i # copied))
      else Inl IndexError)"

text \<open>\<open>Array.from({ length: n }, (_, i) => f(i))\<close>; a negative length gives the empty array.\<close>

definition arrayFrom :: "int \<Rightarrow> (int \<Rightarrow> 'a) \<Rightarrow> 'a list" where
  "arrayFrom len f = map (\<lambda>i. f (int i)) [0..<nat len]"

section \<open>Applying stamps\<close>

text \<open>
  \<open>placementsByPage\<close> is a \<open>Map\<close>: a list of entries in the order the keys were first
  set. \<open>mapSet\<close> is \<open>Map.prototype.set\<close>; \<open>map_of\<close> is \<open>get\<close>, with \<open>None\<close> for
  \<open>undefined\<close>.
\<close>

fun mapSet :: "('k \<times> 'v) list \<Rightarrow> 'k \<Rightarrow> 'v \<Rightarrow> ('k \<times> 'v) list" where
  "mapSet [] k v = [(k, v)]"
| "mapSet ((k', v') # m) k v = (if k' = k then (k, v) # m else (k', v') # mapSet m k v)"

definition addPlacement ::
  "(int \<times> StampPlacement list) list \<Rightarrow> StampPlacement \<Rightarrow> (int \<times> StampPlacement list) list" where
  "addPlacement m p =
     (let list = (case map_of m (plPageIndex p) of None \<Rightarrow> [] | Some l \<Rightarrow> l)
      in mapSet m (plPageIndex p) (list @ [p]))"

definition placementsByPageOf :: "StampPlacement list \<Rightarrow> (int \<times> StampPlacement list) list" where
  "placementsByPageOf placements = foldl addPlacement [] placements"

text \<open>\<open>Array.from(placementsByPage.keys()).sort((a, b) => b - a)\<close>\<close>

definition sortedPageIndicesOf :: "(int \<times> StampPlacement list) list \<Rightarrow> int list" where
  "sortedPageIndicesOf placementsByPage = rev (sort (map fst placementsByPage))"

text \<open>
  \<open>sortedPageIndices.some(idx => pdfDoc.getPage(idx).getRotation().angle !== 0)\<close>: it
  stops at the first rotated page, and throws where \<open>getPage\<close> does.
\<close>

fun hasRotatedPagesOf :: "doc \<Rightarrow> int list \<Rightarrow> error + bool" where
  "hasRotatedPagesOf pdfDoc [] = Inr False"
| "hasRotatedPagesOf pdfDoc (idx # rest) =
     (case getPage pdfDoc idx of
        Inl e \<Rightarrow> Inl e
      | Inr page \<Rightarrow> if protation page \<noteq> 0 then Inr True else hasRotatedPagesOf pdfDoc rest)"

definition A4_SHORT :: real where
  "A4_SHORT = 595.28"

text \<open>
  \<open>drawStampOnPage\<close> draws the two circles, the two curved texts and the number; here
  it is the one record \<open>DrawStamp\<close> of its arguments, added to the page it draws on.
  It measures and draws the upper-cased texts with the embedded Times Roman Bold, and
  \<open>widthOfTextAtSize\<close> throws on the first character the font's encoding lacks. Which
  texts the font takes is the parameter \<open>fontEncodes\<close>: \<open>fontEncodes t\<close> says that
  every character of \<open>t.toUpperCase()\<close> is in the encoding. (The digits and signs of
  \<open>String(stampNumber)\<close> are.)
\<close>

definition drawStampOnPage ::
  "(string \<Rightarrow> bool) \<Rightarrow> page \<Rightarrow> real \<Rightarrow> real \<Rightarrow> real \<Rightarrow> string \<Rightarrow> string \<Rightarrow> int
   \<Rightarrow> error + page" where
  "drawStampOnPage fontEncodes page cx cy outerRadius lawyerName bottomText stampNumber =
     (if fontEncodes lawyerName \<and> fontEncodes bottomText then
        Inr (Page (pwidth page) (pheight page) (protation page)
               (pcontents page @ [DrawStamp cx cy outerRadius lawyerName bottomText stampNumber]))
      else Inl EncodingError)"

definition drawPage :: "page \<Rightarrow> page \<Rightarrow> (real \<times> real \<times> real) option \<Rightarrow> page" where
  "drawPage newPage embeddedPage options =
     Page (pwidth newPage) (pheight newPage) (protation newPage)
       (pcontents newPage @ [DrawPage embeddedPage options])"

text \<open>
  The loop \<open>for (const placement of pagePlacements)\<close>; \<open>pagePlacements\<close> is what
  \<open>placementsByPage.get(pageIndex)\<close> returned, and iterating \<open>undefined\<close> throws.
\<close>

fun drawEach ::
  "(string \<Rightarrow> bool) \<Rightarrow> real \<Rightarrow> StampConfig \<Rightarrow> page \<Rightarrow> StampPlacement list \<Rightarrow> error + page" where
  "drawEach fontEncodes scaledRadius config page [] = Inr page"
| "drawEach fontEncodes scaledRadius config page (placement # rest) =
     (case drawStampOnPage fontEncodes page (plX placement) (plY placement) scaledRadius
             (cfgLawyerName config) (cfgBottomText config) (plNumber placement) of
        Inl e \<Rightarrow> Inl e
      | Inr drawn \<Rightarrow> drawEach fontEncodes scaledRadius config drawn rest)"

definition drawPlacements ::
  "(string \<Rightarrow> bool) \<Rightarrow> page \<Rightarrow> real \<Rightarrow> StampConfig \<Rightarrow> StampPlacement list option
   \<Rightarrow> error + page" where
  "drawPlacements fontEncodes page scaledRadius config pagePlacements =
     (case pagePlacements of
        None \<Rightarrow> Inl NullError
      | Some pls \<Rightarrow> drawEach fontEncodes scaledRadius config page pls)"

text \<open>The \<open>switch (rotation)\<close>: the options of \<open>drawPage\<close> for each rotation flag.\<close>

definition drawPageOptions :: "int \<Rightarrow> real \<Rightarrow> real \<Rightarrow> (real \<times> real \<times> real) option" where
  "drawPageOptions rotation rawW rawH =
     (if rotation = 90 then Some (0, rawW, - 90)
      else if rotation = 180 then Some (rawW, rawH, - 180)
      else if rotation = 270 then Some (rawH, 0, 90)
      else None)"

text \<open>
  One turn of \<open>for (const pageIndex of sortedPageIndices)\<close>. The document in work is
  its pages and the pages it has been asked to embed (\<open>embedPages\<close> only registers
  them; they are embedded when the document is saved). A page object that is drawn on
  is the page of the document: the drawn page is written back at its index. In the
  rotated branch \<open>insertPage(pageIndex, [visualW, visualH])\<close> makes the new page, which
  has no rotation flag, and the later drawing shows in the document.
\<close>

definition stampPage ::
  "(string \<Rightarrow> bool) \<Rightarrow> StampConfig \<Rightarrow> doc option \<Rightarrow> (int \<times> StampPlacement list) list
   \<Rightarrow> doc \<times> page list \<Rightarrow> int \<Rightarrow> error + doc \<times> page list" where
  "stampPage fontEncodes config srcDoc placementsByPage pdfDocState pageIndex =
     (let pdfDoc = fst pdfDocState;
          embeddedPages = snd pdfDocState;
          pagePlacements = map_of placementsByPage pageIndex in
      case getPage pdfDoc pageIndex of
        Inl e \<Rightarrow> Inl e
      | Inr page \<Rightarrow>
         (let rotation = protation page;
              pageW = pwidth page;
              pageH = pheight page;
              pageShortSide = min pageW pageH;
              scaledRadius = cfgRadius config * (pageShortSide / A4_SHORT)
          in if rotation = 0 then
               (case drawPlacements fontEncodes page scaledRadius config pagePlacements of
                  Inl e \<Rightarrow> Inl e
                | Inr stamped \<Rightarrow> Inr (pdfDoc[nat pageIndex := stamped], embeddedPages))
             else
               (let rawW = pwidth page;
                    rawH = pheight page;
                    isSwapped = (rotation = 90 \<or> rotation = 270);
                    visualW = (if isSwapped then rawH else rawW);
                    visualH = (if isSwapped then rawW else rawH)
                in case srcDoc of
                     None \<Rightarrow> Inl NullError
                   | Some src \<Rightarrow>
                      (case getPage src pageIndex of
                         Inl e \<Rightarrow> Inl e
                       | Inr srcPage \<Rightarrow>
                          (let embeddedPages' = embeddedPages @ [srcPage] in
                           case removePage pdfDoc pageIndex of
                             Inl e \<Rightarrow> Inl e
                           | Inr removed \<Rightarrow>
                              (let newPage = Page visualW visualH 0 [] in
                               case insertPage removed pageIndex newPage of
                                 Inl e \<Rightarrow> Inl e
                               | Inr inserted \<Rightarrow>
                                  (let drawn = drawPage newPage srcPage
                                                 (drawPageOptions rotation rawW rawH);
                                       visualShortSide = min visualW visualH;
                                       scaledRadiusRotated =
                                         cfgRadius config * (visualShortSide / A4_SHORT)
                                   in case drawPlacements fontEncodes drawn scaledRadiusRotated
                                             config pagePlacements of
                                        Inl e \<Rightarrow> Inl e
                                      | Inr stamped \<Rightarrow>
                                          Inr (inserted[nat pageIndex := stamped],
                                               embeddedPages'))))))))"

text \<open>
  The visual size of a page, as the rotated branch computes it (\<open>visualW\<close>,
  \<open>visualH\<close>): width and height change places under the flags 90 and 270.
\<close>

definition visualWidth :: "page \<Rightarrow> real" where
  "visualWidth page =
     (if protation page = 90 \<or> protation page = 270 then pheight page else pwidth page)"

definition visualHeight :: "page \<Rightarrow> real" where
  "visualHeight page =
     (if protation page = 90 \<or> protation page = 270 then pwidth page else pheight page)"

fun stampPages ::
  "(string \<Rightarrow> bool) \<Rightarrow> StampConfig \<Rightarrow> doc option \<Rightarrow> (int \<times> StampPlacement list) list
   \<Rightarrow> doc \<times> page list \<Rightarrow> int list \<Rightarrow> error + doc \<times> page list" where
  "stampPages fontEncodes config srcDoc placementsByPage pdfDocState [] = Inr pdfDocState"
| "stampPages fontEncodes config srcDoc placementsByPage pdfDocState (pageIndex # rest) =
     (case stampPage fontEncodes config srcDoc placementsByPage pdfDocState pageIndex of
        Inl e \<Rightarrow> Inl e
      | Inr pdfDocState' \<Rightarrow>
          stampPages fontEncodes config srcDoc placementsByPage pdfDocState' rest)"

text \<open>
  \<open>pdfDoc.save()\<close> at the end of \<open>applyStamps\<close>: it embeds the registered pages first,
  and that throws for a page that has no content stream.
\<close>

definition saveEmbedding :: "doc \<times> page list \<Rightarrow> error + pdf_bytes" where
  "saveEmbedding pdfDocState =
     (if list_all (\<lambda>embedded. pcontents embedded \<noteq> []) (snd pdfDocState)
      then Inr (pdfSave (fst pdfDocState))
      else Inl MissingPageContents)"

text \<open>
  \<open>applyStamps\<close>, with the font's encoding as a parameter. The document is loaded a
  second time as \<open>srcDoc\<close> only when a page to stamp is rotated.
\<close>

definition applyStamps ::
  "(string \<Rightarrow> bool) \<Rightarrow> pdf_bytes \<Rightarrow> StampPlacement list \<Rightarrow> StampConfig \<Rightarrow> error + pdf_bytes" where
  "applyStamps fontEncodes pdfBuffer placements config =
     (case pdfLoad pdfBuffer of
        Inl e \<Rightarrow> Inl e
      | Inr pdfDoc \<Rightarrow>
         (let placementsByPage = placementsByPageOf placements;
              sortedPageIndices = sortedPageIndicesOf placementsByPage
          in case hasRotatedPagesOf pdfDoc sortedPageIndices of
               Inl e \<Rightarrow> Inl e
             | Inr hasRotatedPages \<Rightarrow>
                (case (if hasRotatedPages then map_sum id Some (pdfLoad pdfBuffer) else Inr None) of
                   Inl e \<Rightarrow> Inl e
                 | Inr srcDoc \<Rightarrow>
                    (case stampPages fontEncodes config srcDoc placementsByPage (pdfDoc, [])
                            sortedPageIndices of
                       Inl e \<Rightarrow> Inl e
                     | Inr stampedState \<Rightarrow> saveEmbedding stampedState))))"

section \<open>Merging and splitting\<close>

definition mergePdfs :: "pdf_bytes \<Rightarrow> pdf_bytes \<Rightarrow> error + pdf_bytes" where
  "mergePdfs buffer1 buffer2 =
     (case pdfLoad buffer1 of
        Inl e \<Rightarrow> Inl e
      | Inr doc1 \<Rightarrow>
         (case pdfLoad buffer2 of
            Inl e \<Rightarrow> Inl e
          | Inr doc2 \<Rightarrow>
             (case copyPages doc2 (getPageIndices doc2) of
                Inl e \<Rightarrow> Inl e
              | Inr pages2 \<Rightarrow> Inr (pdfSave (foldl addPage doc1 pages2)))))"

definition splitPdf :: "pdf_bytes \<Rightarrow> int \<Rightarrow> error + pdf_bytes \<times> pdf_bytes" where
  "splitPdf buffer afterPageIndex =
     (case pdfLoad buffer of
        Inl e \<Rightarrow> Inl e
      | Inr srcDoc \<Rightarrow>
         (let totalPages = getPageCount srcDoc;
              indices1 = arrayFrom (afterPageIndex + 1) (\<lambda>i. i)
          in case copyPages srcDoc indices1 of
               Inl e \<Rightarrow> Inl e
             | Inr pages1 \<Rightarrow>
                (let doc1 = foldl addPage [] pages1;
                     indices2 = arrayFrom (totalPages - afterPageIndex - 1)
                                  (\<lambda>i. afterPageIndex + 1 + i)
                 in case copyPages srcDoc indices2 of
                      Inl e \<Rightarrow> Inl e
                    | Inr pages2 \<Rightarrow>
                       (let doc2 = foldl addPage [] pages2
                        in Inr (pdfSave doc1, pdfSave doc2)))))"

text \<open>
  \<open>ipcMain.handle('split-pdf', ...)\<close>: it throws on a negative index before it calls
  \<open>splitPdf\<close>. (\<open>toUint8Array\<close> and \<open>Buffer.from\<close> do not change the bytes.)
\<close>

definition splitPdfHandler :: "pdf_bytes \<Rightarrow> int \<Rightarrow> error + pdf_bytes \<times> pdf_bytes" where
  "splitPdfHandler buffer afterPageIndex =
     (if afterPageIndex < 0 then Inl InvalidPageIndex else splitPdf buffer afterPageIndex)"

section \<open>Renumbering: proofs\<close>

text \<open>Where the counter and its successor are safe integers, \<open>num++\<close> is \<open>num + 1\<close>.\<close>

lemma jsIncrement_safe: "- (2 ^ 53) \<le> n \<Longrightarrow> n < 2 ^ 53 \<Longrightarrow> jsIncrement n = n + 1"
  by (simp add: jsIncrement_def)

lemma renumberPlacements_safe:
  "- (2 ^ 53) \<le> num \<Longrightarrow> num + int (length pls) \<le> 2 ^ 53 \<Longrightarrow>
   map plNumber (fst (renumberPlacements num pls)) = map (\<lambda>i. num + int i) [0..<length pls]
   \<and> snd (renumberPlacements num pls) = num + int (length pls)"
proof (induction pls arbitrary: num)
  case Nil
  show ?case by simp
next
  case (Cons pl pls)
  from Cons.prems have inc: "jsIncrement num = num + 1"
    by (intro jsIncrement_safe) simp_all
  have lo: "- (2 ^ 53) \<le> num + 1" and hi: "num + 1 + int (length pls) \<le> 2 ^ 53"
    using Cons.prems by simp_all
  have "map (\<lambda>i. num + int i) [0..<Suc (length pls)]
        = num # map (\<lambda>i. (num + 1) + int i) [0..<length pls]"
    by (simp add: upt_rec [of 0] map_Suc_upt [symmetric] del: upt_Suc)
  with Cons.IH [OF lo hi] show ?case
    by (simp add: split_beta inc)
qed

lemma renumberPlacements_length:
  "length (fst (renumberPlacements num pls)) = length pls"
  by (induction pls arbitrary: num) (simp_all add: split_beta)

lemma renumberPlacements_erase:
  "map (\<lambda>pl. pl\<lparr>plNumber := 0\<rparr>) (fst (renumberPlacements num pls))
   = map (\<lambda>pl. pl\<lparr>plNumber := 0\<rparr>) pls"
  by (induction pls arbitrary: num) (simp_all add: split_beta)

lemma map_add_upt:
  "map (\<lambda>i. (n::int) + int i) [0..<a + b]
   = map (\<lambda>i. n + int i) [0..<a] @ map (\<lambda>i. (n + int a) + int i) [0..<b]"
proof -
  have "[0..<a + b] = [0..<a] @ map (\<lambda>i. a + i) [0..<b]"
    by (induction b) simp_all
  then show ?thesis by (simp add: o_def add.assoc)
qed

lemma renumberPieces_safe:
  "- (2 ^ 53) \<le> num \<Longrightarrow>
   num + int (length (concat (map pcPlacements pieces))) \<le> 2 ^ 53 \<Longrightarrow>
   numbersOf (renumberPieces num pieces)
   = map (\<lambda>i. num + int i) [0..<length (concat (map pcPlacements pieces))]"
proof (induction pieces arbitrary: num)
  case Nil
  show ?case by (simp add: numbersOf_def)
next
  case (Cons piece pieces)
  show ?case
  proof (cases "pcPlacements piece = []")
    case True
    with Cons.IH [of num] Cons.prems show ?thesis by (simp add: numbersOf_def)
  next
    case False
    let ?n = "int (length (pcPlacements piece))"
    have hi1: "num + ?n \<le> 2 ^ 53"
      using Cons.prems(2) by simp
    from renumberPlacements_safe [OF Cons.prems(1) hi1]
    have here: "map plNumber (fst (renumberPlacements num (pcPlacements piece)))
                = map (\<lambda>i. num + int i) [0..<length (pcPlacements piece)]"
      and counter: "snd (renumberPlacements num (pcPlacements piece)) = num + ?n"
      by simp_all
    have lo: "- (2 ^ 53) \<le> num + ?n"
      using Cons.prems(1) by simp
    have hi: "num + ?n + int (length (concat (map pcPlacements pieces))) \<le> 2 ^ 53"
      using Cons.prems(2) by simp
    have "numbersOf (renumberPieces num (piece # pieces))
          = map plNumber (fst (renumberPlacements num (pcPlacements piece)))
            @ numbersOf (renumberPieces (snd (renumberPlacements num (pcPlacements piece))) pieces)"
      using False by (simp add: numbersOf_def split_beta)
    then show ?thesis
      by (simp add: here counter Cons.IH [OF lo hi] map_add_upt)
  qed
qed

lemma renumberPieces_erase:
  "map eraseNumbers (renumberPieces num pieces) = map eraseNumbers pieces"
  by (induction pieces arbitrary: num)
     (simp_all add: eraseNumbers_def split_beta renumberPlacements_erase)

lemma renumberPieces_length: "length (renumberPieces num pieces) = length pieces"
  by (induction pieces arbitrary: num) (simp_all add: split_beta)

text \<open>A field that does not see the stamp numbers is the same on every piece.\<close>

lemma map_through_erase:
  assumes "\<And>p. f (eraseNumbers p) = f p"
  shows "map f (renumberPieces num pieces) = map f pieces"
proof -
  have "map f (renumberPieces num pieces) = map f (map eraseNumbers (renumberPieces num pieces))"
    by (simp add: assms o_def)
  also have "\<dots> = map f (map eraseNumbers pieces)"
    by (simp only: renumberPieces_erase)
  also have "\<dots> = map f pieces"
    by (simp add: assms o_def)
  finally show ?thesis .
qed

text \<open>
  C4, as the code has it. \<open>recalculateNumbers\<close> walks the pieces in list order and
  numbers the placements it meets. Where \<open>start\<close> is at least \<open>-2\<^sup>5\<^sup>3\<close> and \<open>start\<close> plus
  the count of placements is at most \<open>2\<^sup>5\<^sup>3\<close>, so that every count is exact, the numbers
  read in list order are \<open>start, start + 1, ...\<close>, one for each placement. Every piece
  keeps as many placements as it had, so a piece with none takes no number. For three
  pieces with 0, 1 and 1 placements and start 5 the placements get 5 and 6; with the
  pieces put in the order third, second, first and the pass run again, the third
  piece's placement gets 5 and the second's 6.
\<close>

theorem recalculateNumbers_safe_consecutive:
  "(- (2 ^ 53) \<le> start
      \<and> start + int (length (concat (map pcPlacements pieces))) \<le> 2 ^ 53 \<longrightarrow>
    numbersOf (recalculateNumbers pieces start)
      = map (\<lambda>i. start + int i) [0..<length (concat (map pcPlacements pieces))])
   \<and> map (\<lambda>p. length (pcPlacements p)) (recalculateNumbers pieces start)
     = map (\<lambda>p. length (pcPlacements p)) pieces
   \<and> recalculateNumbers
        [p1\<lparr>pcPlacements := []\<rparr>, p2\<lparr>pcPlacements := [a]\<rparr>, p3\<lparr>pcPlacements := [b]\<rparr>] 5
     = [p1\<lparr>pcPlacements := []\<rparr>, p2\<lparr>pcPlacements := [a\<lparr>plNumber := 5\<rparr>]\<rparr>,
        p3\<lparr>pcPlacements := [b\<lparr>plNumber := 6\<rparr>]\<rparr>]
   \<and> recalculateNumbers
        [p3\<lparr>pcPlacements := [b\<lparr>plNumber := 6\<rparr>]\<rparr>, p2\<lparr>pcPlacements := [a\<lparr>plNumber := 5\<rparr>]\<rparr>,
         p1\<lparr>pcPlacements := []\<rparr>] 5
     = [p3\<lparr>pcPlacements := [b\<lparr>plNumber := 5\<rparr>]\<rparr>, p2\<lparr>pcPlacements := [a\<lparr>plNumber := 6\<rparr>]\<rparr>,
        p1\<lparr>pcPlacements := []\<rparr>]"
proof -
  have counts: "map (\<lambda>p. length (pcPlacements p)) (renumberPieces start pieces)
        = map (\<lambda>p. length (pcPlacements p)) pieces"
    by (rule map_through_erase) (simp add: eraseNumbers_def)
  have five: "jsIncrement 5 = 6" and six: "jsIncrement 6 = 7"
    by (simp_all add: jsIncrement_def)
  show ?thesis
    by (simp add: recalculateNumbers_def renumberPieces_safe counts five six)
qed

theorem recalculateNumbers_safe_consecutive_witness:
  "- (2 ^ 53) \<le> (9007199254740990::int)
   \<and> 9007199254740990
       + int (length (concat (map pcPlacements
           [\<lparr>pcId = ''a'', pcFileName = ''a.pdf'', pcDisplayName = None,
          pcPdfBuffer = Pdf [Page 595.28 841.89 0 [Original 0]], pcTotalPages = 1,
          pcPlacements = [\<lparr>plPageIndex = 0, plX = 100, plY = 700, plNumber = 1\<rparr>]\<rparr>,
            \<lparr>pcId = ''b'', pcFileName = ''b.pdf'', pcDisplayName = None,
          pcPdfBuffer = Pdf [Page 595.28 841.89 0 [Original 1]], pcTotalPages = 1,
          pcPlacements = [\<lparr>plPageIndex = 0, plX = 200, plY = 600, plNumber = 2\<rparr>]\<rparr>])))
     \<le> 2 ^ 53
   \<and> numbersOf (recalculateNumbers
         [\<lparr>pcId = ''a'', pcFileName = ''a.pdf'', pcDisplayName = None,
          pcPdfBuffer = Pdf [Page 595.28 841.89 0 [Original 0]], pcTotalPages = 1,
          pcPlacements = [\<lparr>plPageIndex = 0, plX = 100, plY = 700, plNumber = 1\<rparr>]\<rparr>,
          \<lparr>pcId = ''b'', pcFileName = ''b.pdf'', pcDisplayName = None,
          pcPdfBuffer = Pdf [Page 595.28 841.89 0 [Original 1]], pcTotalPages = 1,
          pcPlacements = [\<lparr>plPageIndex = 0, plX = 200, plY = 600, plNumber = 2\<rparr>]\<rparr>]
         9007199254740990)
     = [9007199254740990, 9007199254740991]"
  using recalculateNumbers_safe_consecutive
    [of 9007199254740990
        "[\<lparr>pcId = ''a'', pcFileName = ''a.pdf'', pcDisplayName = None,
          pcPdfBuffer = Pdf [Page 595.28 841.89 0 [Original 0]], pcTotalPages = 1,
          pcPlacements = [\<lparr>plPageIndex = 0, plX = 100, plY = 700, plNumber = 1\<rparr>]\<rparr>,
          \<lparr>pcId = ''b'', pcFileName = ''b.pdf'', pcDisplayName = None,
          pcPdfBuffer = Pdf [Page 595.28 841.89 0 [Original 1]], pcTotalPages = 1,
          pcPlacements = [\<lparr>plPageIndex = 0, plX = 200, plY = 600, plNumber = 2\<rparr>]\<rparr>]"]
  by simp

text \<open>
  Two pieces with one placement each, numbered from \<open>2\<^sup>5\<^sup>3 = 9007199254740992\<close>: the
  sum \<open>2\<^sup>5\<^sup>3 + 1\<close> rounds back to \<open>2\<^sup>5\<^sup>3\<close>, and both placements get the same number.
\<close>

theorem recalculateNumbers_repeats_counterexample:
  "numbersOf (recalculateNumbers
     [\<lparr>pcId = ''a'', pcFileName = ''a.pdf'', pcDisplayName = None,
          pcPdfBuffer = Pdf [Page 595.28 841.89 0 [Original 0]], pcTotalPages = 1,
          pcPlacements = [\<lparr>plPageIndex = 0, plX = 100, plY = 700, plNumber = 1\<rparr>]\<rparr>,
      \<lparr>pcId = ''b'', pcFileName = ''b.pdf'', pcDisplayName = None,
          pcPdfBuffer = Pdf [Page 595.28 841.89 0 [Original 1]], pcTotalPages = 1,
          pcPlacements = [\<lparr>plPageIndex = 0, plX = 200, plY = 600, plNumber = 2\<rparr>]\<rparr>]
     9007199254740992)
   = [9007199254740992, 9007199254740992]
   \<and> numbersOf (recalculateNumbers
     [\<lparr>pcId = ''a'', pcFileName = ''a.pdf'', pcDisplayName = None,
          pcPdfBuffer = Pdf [Page 595.28 841.89 0 [Original 0]], pcTotalPages = 1,
          pcPlacements = [\<lparr>plPageIndex = 0, plX = 100, plY = 700, plNumber = 1\<rparr>]\<rparr>,
      \<lparr>pcId = ''b'', pcFileName = ''b.pdf'', pcDisplayName = None,
          pcPdfBuffer = Pdf [Page 595.28 841.89 0 [Original 1]], pcTotalPages = 1,
          pcPlacements = [\<lparr>plPageIndex = 0, plX = 200, plY = 600, plNumber = 2\<rparr>]\<rparr>]
     9007199254740992)
   \<noteq> [9007199254740992, 9007199254740992 + 1]"
  by (simp add: recalculateNumbers_def numbersOf_def jsIncrement_def)

text \<open>
  C9. \<open>recalculateNumbers\<close> changes nothing but the \<open>number\<close> of placements: with
  the numbers blanked the pieces after the pass are the pieces before it. So the order
  and count of the pieces, each piece's id, file name, display name, bytes and page
  count, its count of placements, and each placement's page index, x and y are as
  they were.
\<close>

theorem recalculateNumbers_frame:
  "map eraseNumbers (recalculateNumbers pieces start) = map eraseNumbers pieces
   \<and> length (recalculateNumbers pieces start) = length pieces
   \<and> map pcId (recalculateNumbers pieces start) = map pcId pieces
   \<and> map pcFileName (recalculateNumbers pieces start) = map pcFileName pieces
   \<and> map pcDisplayName (recalculateNumbers pieces start) = map pcDisplayName pieces
   \<and> map pcPdfBuffer (recalculateNumbers pieces start) = map pcPdfBuffer pieces
   \<and> map pcTotalPages (recalculateNumbers pieces start) = map pcTotalPages pieces
   \<and> map (\<lambda>p. length (pcPlacements p)) (recalculateNumbers pieces start)
     = map (\<lambda>p. length (pcPlacements p)) pieces
   \<and> map (\<lambda>p. map (\<lambda>pl. (plPageIndex pl, plX pl, plY pl)) (pcPlacements p))
         (recalculateNumbers pieces start)
     = map (\<lambda>p. map (\<lambda>pl. (plPageIndex pl, plX pl, plY pl)) (pcPlacements p)) pieces"
proof -
  have "map (\<lambda>p. map (\<lambda>pl. (plPageIndex pl, plX pl, plY pl)) (pcPlacements p))
         (renumberPieces start pieces)
     = map (\<lambda>p. map (\<lambda>pl. (plPageIndex pl, plX pl, plY pl)) (pcPlacements p)) pieces"
    by (rule map_through_erase) (simp add: eraseNumbers_def o_def)
  moreover have "map (\<lambda>p. length (pcPlacements p)) (renumberPieces start pieces)
        = map (\<lambda>p. length (pcPlacements p)) pieces"
    by (rule map_through_erase) (simp add: eraseNumbers_def)
  moreover have "map pcId (renumberPieces start pieces) = map pcId pieces"
    by (rule map_through_erase) (simp add: eraseNumbers_def)
  moreover have "map pcFileName (renumberPieces start pieces) = map pcFileName pieces"
    by (rule map_through_erase) (simp add: eraseNumbers_def)
  moreover have "map pcDisplayName (renumberPieces start pieces) = map pcDisplayName pieces"
    by (rule map_through_erase) (simp add: eraseNumbers_def)
  moreover have "map pcPdfBuffer (renumberPieces start pieces) = map pcPdfBuffer pieces"
    by (rule map_through_erase) (simp add: eraseNumbers_def)
  moreover have "map pcTotalPages (renumberPieces start pieces) = map pcTotalPages pieces"
    by (rule map_through_erase) (simp add: eraseNumbers_def)
  ultimately show ?thesis
    by (simp add: recalculateNumbers_def renumberPieces_erase renumberPieces_length)
qed

section \<open>Coordinate mapper: proofs\<close>

lemma roundTrip_eq:
  assumes "displayWidth \<noteq> 0" "displayHeight \<noteq> 0" "pdfPageWidth \<noteq> 0" "pdfPageHeight \<noteq> 0"
  shows "roundTrip mouseX mouseY containerRect pdfPageWidth pdfPageHeight displayWidth displayHeight
         = (mouseX - rectLeft containerRect, mouseY - rectTop containerRect)"
proof -
  have x: "(mouseX - rectLeft containerRect) / displayWidth * pdfPageWidth / pdfPageWidth
             * displayWidth = mouseX - rectLeft containerRect"
    using assms by simp
  have "(1 - (1 - (mouseY - rectTop containerRect) / displayHeight) * pdfPageHeight / pdfPageHeight)
          = (mouseY - rectTop containerRect) / displayHeight"
    using assms by simp
  then have y: "(1 - (1 - (mouseY - rectTop containerRect) / displayHeight) * pdfPageHeight / pdfPageHeight)
          * displayHeight = mouseY - rectTop containerRect"
    using assms by simp
  show ?thesis
    unfolding roundTrip_def screenToPdf_def pdfToScreen_def Let_def prod.case
    using x y by simp
qed

text \<open>
  C1, as the code has it. \<open>pdfToScreen\<close> returns a position relative to the container's
  top-left corner, from which \<open>screenToPdf\<close> started: for positive display and page
  dimensions, \<open>pdfToScreen\<close> after \<open>screenToPdf\<close> gives the pointer position minus
  \<open>(containerRect.left, containerRect.top)\<close>, exactly. It is the pointer position itself
  when the container's corner is at the origin.
\<close>

theorem roundTrip_relative:
  assumes "0 < displayWidth" "0 < displayHeight" "0 < pdfPageWidth" "0 < pdfPageHeight"
  shows "roundTrip mouseX mouseY containerRect pdfPageWidth pdfPageHeight displayWidth displayHeight
         = (mouseX - rectLeft containerRect, mouseY - rectTop containerRect)"
  using assms by (intro roundTrip_eq) simp_all

theorem roundTrip_relative_witness:
  "(0::real) < 700 \<and> (0::real) < 990 \<and> (0::real) < 595.28 \<and> (0::real) < 841.89
   \<and> roundTrip 450 545 \<lparr>rectLeft = 100, rectTop = 50\<rparr> 595.28 841.89 700 990 = (350, 495)"
  using roundTrip_relative [of 700 990 "595.28" "841.89" 450 545 "\<lparr>rectLeft = 100, rectTop = 50\<rparr>"]
  by simp

text \<open>
  With the container at \<open>(100, 50)\<close>, the pointer at \<open>(100, 50)\<close> comes back as \<open>(0, 0)\<close>:
  not within 0.1 of where it was.
\<close>

theorem roundTrip_offset_counterexample:
  "\<not> (\<bar>fst (roundTrip 100 50 \<lparr>rectLeft = 100, rectTop = 50\<rparr> 595.28 841.89 700 990) - 100\<bar> \<le> 0.1
      \<and> \<bar>snd (roundTrip 100 50 \<lparr>rectLeft = 100, rectTop = 50\<rparr> 595.28 841.89 700 990) - 50\<bar> \<le> 0.1)"
  by (simp add: roundTrip_def screenToPdf_def pdfToScreen_def)

section \<open>Arc text fitting: proofs\<close>

text \<open>The three ways one turn of the loop goes.\<close>

lemma fitLoop_done:
  "\<not> attempt < 20 \<Longrightarrow> fitLoop widthOf chars radius maxAngle attempt fontSize = (fontSize, [])"
  by (simp add: fitLoop.simps)

lemma fitLoop_pass:
  "attempt < 20 \<Longrightarrow> totalAngle widthOf chars radius fontSize \<le> maxAngle \<Longrightarrow>
   fitLoop widthOf chars radius maxAngle attempt fontSize = (fontSize, [fontSize])"
  by (simp add: fitLoop.simps)

lemma fitLoop_fail:
  "attempt < 20 \<Longrightarrow> \<not> totalAngle widthOf chars radius fontSize \<le> maxAngle \<Longrightarrow>
   fitLoop widthOf chars radius maxAngle attempt fontSize
   = (fst (fitLoop widthOf chars radius maxAngle (Suc attempt) (fontSize * 0.9)),
      fontSize # snd (fitLoop widthOf chars radius maxAngle (Suc attempt) (fontSize * 0.9)))"
  by (subst fitLoop.simps) (simp add: split_beta)

lemma fitLoop_fail_fst:
  "attempt < 20 \<Longrightarrow> \<not> totalAngle widthOf chars radius fontSize \<le> maxAngle \<Longrightarrow>
   fst (fitLoop widthOf chars radius maxAngle attempt fontSize)
   = fst (fitLoop widthOf chars radius maxAngle (Suc attempt) (fontSize * 0.9))"
  by (simp add: fitLoop_fail)

lemma fitLoop_fail_snd:
  "attempt < 20 \<Longrightarrow> \<not> totalAngle widthOf chars radius fontSize \<le> maxAngle \<Longrightarrow>
   snd (fitLoop widthOf chars radius maxAngle attempt fontSize)
   = fontSize # snd (fitLoop widthOf chars radius maxAngle (Suc attempt) (fontSize * 0.9))"
  by (simp add: fitLoop_fail)

text \<open>The sizes tried are the starting size times the powers of 0.9.\<close>

lemma fitLoop_tried_shape:
  "snd (fitLoop widthOf chars radius maxAngle attempt fontSize)
   = map (\<lambda>j. fontSize * 0.9 ^ j)
       [0..<length (snd (fitLoop widthOf chars radius maxAngle attempt fontSize))]"
proof (induction n \<equiv> "20 - attempt" arbitrary: attempt fontSize)
  case 0
  then show ?case by (simp add: fitLoop_done)
next
  case (Suc n)
  then have lt: "attempt < 20" and n: "n = 20 - (Suc attempt)" by simp_all
  show ?case
  proof (cases "totalAngle widthOf chars radius fontSize \<le> maxAngle")
    case True
    with lt show ?thesis by (simp add: fitLoop_pass)
  next
    case False
    let ?T = "snd (fitLoop widthOf chars radius maxAngle (Suc attempt) (fontSize * 0.9))"
    have "map (\<lambda>j. fontSize * 0.9 ^ j) [0..<Suc (length ?T)]
          = fontSize # map (\<lambda>j. (fontSize * 0.9) * 0.9 ^ j) [0..<length ?T]"
      by (simp add: upt_rec [of 0] map_Suc_upt [symmetric] del: upt_Suc)
    also have "\<dots> = fontSize # ?T"
      using Suc.hyps(1) [OF n, of "fontSize * 0.9"] by simp
    finally show ?thesis
      using lt False by (simp add: fitLoop_fail del: upt_Suc)
  qed
qed

lemma fitLoop_tried_length:
  "length (snd (fitLoop widthOf chars radius maxAngle attempt fontSize)) \<le> 20 - attempt"
proof (induction n \<equiv> "20 - attempt" arbitrary: attempt fontSize)
  case 0
  then show ?case by (simp add: fitLoop_done)
next
  case (Suc n)
  then have lt: "attempt < 20" and n: "n = 20 - (Suc attempt)" by simp_all
  show ?case
  proof (cases "totalAngle widthOf chars radius fontSize \<le> maxAngle")
    case True
    with lt show ?thesis by (simp add: fitLoop_pass)
  next
    case False
    with lt Suc.hyps(1) [OF n, of "fontSize * 0.9"] show ?thesis
      by (simp add: fitLoop_fail)
  qed
qed

lemma fitLoop_tried_nonempty:
  "attempt < 20 \<Longrightarrow> snd (fitLoop widthOf chars radius maxAngle attempt fontSize) \<noteq> []"
  by (cases "totalAngle widthOf chars radius fontSize \<le> maxAngle")
     (simp_all add: fitLoop_pass fitLoop_fail)

text \<open>Every size tried before the last one failed the check.\<close>

lemma fitLoop_earlier_fail:
  "Suc j < length (snd (fitLoop widthOf chars radius maxAngle attempt fontSize)) \<Longrightarrow>
   \<not> totalAngle widthOf chars radius (fontSize * 0.9 ^ j) \<le> maxAngle"
proof (induction n \<equiv> "20 - attempt" arbitrary: attempt fontSize j)
  case 0
  then show ?case by (simp add: fitLoop_done)
next
  case (Suc n)
  then have lt: "attempt < 20" and n: "n = 20 - (Suc attempt)" by simp_all
  show ?case
  proof (cases "totalAngle widthOf chars radius fontSize \<le> maxAngle")
    case True
    with lt Suc.prems show ?thesis by (simp add: fitLoop_pass)
  next
    case False
    show ?thesis
    proof (cases j)
      case 0
      with False show ?thesis by simp
    next
      case (Suc i)
      have eq: "fontSize * 0.9 ^ j = fontSize * 0.9 * 0.9 ^ i"
        using Suc by simp
      from Suc.prems lt False Suc
      have "Suc i < length (snd (fitLoop widthOf chars radius maxAngle (Suc attempt) (fontSize * 0.9)))"
        by (simp add: fitLoop_fail_snd)
      from Suc.hyps(1) [OF n this] show ?thesis unfolding eq .
    qed
  qed
qed

text \<open>The loop that ends on a size that passes returns that size.\<close>

lemma fitLoop_result_pass:
  "attempt < 20 \<Longrightarrow>
   totalAngle widthOf chars radius
     (last (snd (fitLoop widthOf chars radius maxAngle attempt fontSize))) \<le> maxAngle \<Longrightarrow>
   fst (fitLoop widthOf chars radius maxAngle attempt fontSize)
   = last (snd (fitLoop widthOf chars radius maxAngle attempt fontSize))"
proof (induction n \<equiv> "20 - attempt" arbitrary: attempt fontSize)
  case 0
  then show ?case by simp
next
  case (Suc n)
  then have lt: "attempt < 20" and n: "n = 20 - (Suc attempt)" by simp_all
  show ?case
  proof (cases "totalAngle widthOf chars radius fontSize \<le> maxAngle")
    case True
    with lt show ?thesis by (simp add: fitLoop_pass)
  next
    case False
    show ?thesis
    proof (cases "Suc attempt < 20")
      case True
      then have ne: "snd (fitLoop widthOf chars radius maxAngle (Suc attempt) (fontSize * 0.9)) \<noteq> []"
        by (rule fitLoop_tried_nonempty)
      with Suc.prems(2) lt False
      have "totalAngle widthOf chars radius
              (last (snd (fitLoop widthOf chars radius maxAngle (Suc attempt) (fontSize * 0.9))))
            \<le> maxAngle"
        by (simp add: fitLoop_fail)
      from Suc.hyps(1) [OF n True this] ne lt False show ?thesis
        by (simp add: fitLoop_fail)
    next
      case F: False
      with lt False Suc.prems(2) show ?thesis
        by (simp add: fitLoop_fail fitLoop_done)
    qed
  qed
qed

text \<open>
  The loop that ends on a size that fails has used every attempt left, and returns the
  next size, which it has not tried.
\<close>

lemma fitLoop_result_exhausted:
  "attempt < 20 \<Longrightarrow>
   \<not> totalAngle widthOf chars radius
       (last (snd (fitLoop widthOf chars radius maxAngle attempt fontSize))) \<le> maxAngle \<Longrightarrow>
   length (snd (fitLoop widthOf chars radius maxAngle attempt fontSize)) = 20 - attempt
   \<and> fst (fitLoop widthOf chars radius maxAngle attempt fontSize) = fontSize * 0.9 ^ (20 - attempt)"
proof (induction n \<equiv> "20 - attempt" arbitrary: attempt fontSize)
  case 0
  then show ?case by simp
next
  case (Suc n)
  then have lt: "attempt < 20" and n: "n = 20 - (Suc attempt)" by simp_all
  show ?case
  proof (cases "totalAngle widthOf chars radius fontSize \<le> maxAngle")
    case True
    with lt Suc.prems(2) show ?thesis by (simp add: fitLoop_pass)
  next
    case False
    show ?thesis
    proof (cases "Suc attempt < 20")
      case True
      then have ne: "snd (fitLoop widthOf chars radius maxAngle (Suc attempt) (fontSize * 0.9)) \<noteq> []"
        by (rule fitLoop_tried_nonempty)
      with Suc.prems(2) lt False
      have "\<not> totalAngle widthOf chars radius
              (last (snd (fitLoop widthOf chars radius maxAngle (Suc attempt) (fontSize * 0.9))))
            \<le> maxAngle"
        by (simp add: fitLoop_fail)
      from Suc.hyps(1) [OF n True this]
      have len: "length (snd (fitLoop widthOf chars radius maxAngle (Suc attempt) (fontSize * 0.9)))
                 = 20 - (Suc attempt)"
        and res: "fst (fitLoop widthOf chars radius maxAngle (Suc attempt) (fontSize * 0.9))
                 = fontSize * 0.9 * 0.9 ^ (20 - (Suc attempt))"
        by simp_all
      have step: "20 - attempt = Suc (20 - (Suc attempt))" using lt by simp
      have "fst (fitLoop widthOf chars radius maxAngle attempt fontSize)
            = fontSize * 0.9 * 0.9 ^ (20 - (Suc attempt))"
        using lt False res by (simp add: fitLoop_fail_fst)
      also have "\<dots> = fontSize * 0.9 ^ (20 - attempt)"
        by (simp only: step power_Suc mult.assoc)
      finally have r: "fst (fitLoop widthOf chars radius maxAngle attempt fontSize)
            = fontSize * 0.9 ^ (20 - attempt)" .
      have "length (snd (fitLoop widthOf chars radius maxAngle attempt fontSize))
            = Suc (20 - (Suc attempt))"
        using lt False len by (simp add: fitLoop_fail_snd)
      with step r show ?thesis by simp
    next
      case F: False
      with lt have "attempt = 19" by simp
      with False show ?thesis
        by (simp add: fitLoop_fail fitLoop_done)
    qed
  qed
qed

text \<open>From a size that is not negative the loop returns a size between 0 and it.\<close>

lemma fitLoop_result_bounds:
  "0 \<le> fontSize \<Longrightarrow>
   0 \<le> fst (fitLoop widthOf chars radius maxAngle attempt fontSize)
   \<and> fst (fitLoop widthOf chars radius maxAngle attempt fontSize) \<le> fontSize"
proof (induction n \<equiv> "20 - attempt" arbitrary: attempt fontSize)
  case 0
  then show ?case by (simp add: fitLoop_done)
next
  case (Suc n)
  then have lt: "attempt < 20" and n: "n = 20 - (Suc attempt)" by simp_all
  show ?case
  proof (cases "totalAngle widthOf chars radius fontSize \<le> maxAngle")
    case True
    with lt Suc.prems show ?thesis by (simp add: fitLoop_pass)
  next
    case False
    have "0 \<le> fontSize * 0.9" using Suc.prems by simp
    from Suc.hyps(1) [OF n this] Suc.prems lt False show ?thesis
      by (simp add: fitLoop_fail)
  qed
qed

lemma powers_decreasing:
  "0 \<le> (fontSize::real) \<Longrightarrow> sorted_wrt (\<lambda>a b. b \<le> a) (map (\<lambda>j. fontSize * 0.9 ^ j) [0..<n])"
  by (auto simp: sorted_wrt_map sorted_wrt_iff_nth_less intro!: mult_left_mono power_decreasing)

lemma triedSizes_nonempty: "triedSizes widthOf text maxFontSize radius maxAngle \<noteq> []"
  unfolding triedSizes_def by (rule fitLoop_tried_nonempty) simp

text \<open>
  C5, as the code has it. For a positive \<open>maxFontSize\<close> and a positive \<open>radius\<close>, the
  sizes \<open>fitFontSize\<close> tries are \<open>maxFontSize\<close> times \<open>0.9\<^sup>0, 0.9\<^sup>1, ...\<close>, at least one
  and at most 20 of them, each tried because the one before it was too wide, and not
  increasing. When the last size tried fits, it is returned. When it does not, all 20
  attempts were used and the size returned is \<open>maxFontSize\<close> times \<open>0.9\<^sup>2\<^sup>0\<close>: one
  shrink past the last size tried, a size the check has not seen. The size returned
  is never above \<open>maxFontSize\<close>.
\<close>

theorem fitFontSize_attempts:
  assumes "0 < maxFontSize" and "0 < radius"
  shows "triedSizes widthOf text maxFontSize radius maxAngle
           = map (\<lambda>j. maxFontSize * 0.9 ^ j)
               [0..<length (triedSizes widthOf text maxFontSize radius maxAngle)]
         \<and> 1 \<le> length (triedSizes widthOf text maxFontSize radius maxAngle)
         \<and> length (triedSizes widthOf text maxFontSize radius maxAngle) \<le> 20
         \<and> (\<forall>j. Suc j < length (triedSizes widthOf text maxFontSize radius maxAngle) \<longrightarrow>
                maxAngle < totalAngle widthOf text radius (maxFontSize * 0.9 ^ j))
         \<and> (totalAngle widthOf text radius
               (last (triedSizes widthOf text maxFontSize radius maxAngle)) \<le> maxAngle \<longrightarrow>
             fitFontSize widthOf text maxFontSize radius maxAngle
               = last (triedSizes widthOf text maxFontSize radius maxAngle))
         \<and> (maxAngle < totalAngle widthOf text radius
               (last (triedSizes widthOf text maxFontSize radius maxAngle)) \<longrightarrow>
             length (triedSizes widthOf text maxFontSize radius maxAngle) = 20
             \<and> fitFontSize widthOf text maxFontSize radius maxAngle = maxFontSize * 0.9 ^ 20)
         \<and> sorted_wrt (\<lambda>a b. b \<le> a) (triedSizes widthOf text maxFontSize radius maxAngle)
         \<and> fitFontSize widthOf text maxFontSize radius maxAngle \<le> maxFontSize"
proof -
  let ?T = "triedSizes widthOf text maxFontSize radius maxAngle"
  have shape: "?T = map (\<lambda>j. maxFontSize * 0.9 ^ j) [0..<length ?T]"
    unfolding triedSizes_def by (rule fitLoop_tried_shape)
  have "?T \<noteq> []" by (rule triedSizes_nonempty)
  then have lo: "1 \<le> length ?T" by (cases "?T") simp_all
  have hi: "length ?T \<le> 20"
    using fitLoop_tried_length [of widthOf "text" radius maxAngle 0 maxFontSize]
    by (simp add: triedSizes_def)
  have earlier: "\<forall>j. Suc j < length ?T \<longrightarrow>
                  maxAngle < totalAngle widthOf text radius (maxFontSize * 0.9 ^ j)"
    using fitLoop_earlier_fail [of _ widthOf "text" radius maxAngle 0 maxFontSize]
    by (simp add: triedSizes_def not_le)
  have pass: "totalAngle widthOf text radius (last ?T) \<le> maxAngle \<longrightarrow>
              fitFontSize widthOf text maxFontSize radius maxAngle = last ?T"
    using fitLoop_result_pass [of 0 widthOf "text" radius maxAngle maxFontSize]
    by (simp add: triedSizes_def fitFontSize_def)
  have exhausted: "maxAngle < totalAngle widthOf text radius (last ?T) \<longrightarrow>
                   length ?T = 20
                   \<and> fitFontSize widthOf text maxFontSize radius maxAngle = maxFontSize * 0.9 ^ 20"
    using fitLoop_result_exhausted [of 0 widthOf "text" radius maxAngle maxFontSize]
    by (simp add: triedSizes_def fitFontSize_def not_le)
  have "sorted_wrt (\<lambda>a b. b \<le> a) (map (\<lambda>j. maxFontSize * 0.9 ^ j) [0..<length ?T])"
    using assms(1) by (intro powers_decreasing) simp
  with shape have dec: "sorted_wrt (\<lambda>a b. b \<le> a) ?T" by simp
  have le: "fitFontSize widthOf text maxFontSize radius maxAngle \<le> maxFontSize"
    using assms(1) fitLoop_result_bounds [of maxFontSize widthOf "text" radius maxAngle 0]
    by (simp add: fitFontSize_def)
  from shape lo hi earlier pass exhausted dec le show ?thesis by blast
qed

theorem fitFontSize_attempts_witness:
  "(0::real) < 1 \<and> (0::real) < 1
   \<and> triedSizes (\<lambda>c s. s) ''AB'' 1 1 2 = [1, 0.9]
   \<and> fitFontSize (\<lambda>c s. s) ''AB'' 1 1 2 = 0.9
   \<and> totalAngle (\<lambda>c s. s) ''AB'' 1 1 = 2.08
   \<and> totalAngle (\<lambda>c s. s) ''AB'' 1 0.9 = 1.872
   \<and> sorted_wrt (\<lambda>a b. b \<le> a) (triedSizes (\<lambda>c s. s) ''AB'' 1 1 2)
   \<and> fitFontSize (\<lambda>c s. s) ''AB'' 1 1 2 \<le> 1"
proof -
  have pos: "(0::real) < 1" by simp
  have run: "triedSizes (\<lambda>c s. s) ''AB'' 1 1 2 = [1, 0.9]
             \<and> fitFontSize (\<lambda>c s. s) ''AB'' 1 1 2 = 0.9
             \<and> totalAngle (\<lambda>c s. s) ''AB'' 1 1 = 2.08
             \<and> totalAngle (\<lambda>c s. s) ''AB'' 1 0.9 = 1.872"
    by (simp add: fitFontSize_def triedSizes_def fitLoop_fail fitLoop_pass
          totalAngle_def totalWidth_def)
  have "sorted_wrt (\<lambda>a b. b \<le> a) (triedSizes (\<lambda>c s. s) ''AB'' 1 1 2)
        \<and> fitFontSize (\<lambda>c s. s) ''AB'' 1 1 2 \<le> 1"
    using fitFontSize_attempts [OF pos pos, of "\<lambda>c s. s" "''AB''" 2] by blast
  with pos run show ?thesis by blast
qed

text \<open>
  One glyph as wide as the font size, on radius 1 with no angle allowed: every attempt
  fails, and the size returned is not among the sizes tried.
\<close>

theorem fitFontSize_untried_counterexample:
  "fitFontSize (\<lambda>c s. s) ''A'' 1 1 0 \<notin> set (triedSizes (\<lambda>c s. s) ''A'' 1 1 0)"
proof -
  let ?w = "\<lambda>(c::char) (s::real). s"
  let ?T = "triedSizes ?w ''A'' 1 1 0"
  have angle: "totalAngle ?w ''A'' 1 s = s" for s
    by (simp add: totalAngle_def totalWidth_def)
  have shape: "?T = map (\<lambda>j. 1 * 0.9 ^ j) [0..<length ?T]"
    unfolding triedSizes_def by (rule fitLoop_tried_shape)
  have "\<forall>s \<in> set (map (\<lambda>j. 1 * 0.9 ^ j) [0..<length ?T]). (0::real) < s"
    by simp
  with shape have allpos: "\<forall>s \<in> set ?T. 0 < s" by simp
  have "?T \<noteq> []" by (rule triedSizes_nonempty)
  then have "last ?T \<in> set ?T" by (rule last_in_set)
  with allpos have "0 < last ?T" by blast
  then have "\<not> totalAngle ?w ''A'' 1 (last ?T) \<le> 0"
    by (simp add: angle)
  then have "\<not> totalAngle ?w ''A'' 1 (last (snd (fitLoop ?w ''A'' 1 0 0 1))) \<le> 0"
    unfolding triedSizes_def .
  with fitLoop_result_exhausted [of 0 ?w "''A''" 1 0 1]
  have len: "length ?T = 20" and res: "fitFontSize ?w ''A'' 1 1 0 = 0.9 ^ 20"
    by (simp_all add: triedSizes_def fitFontSize_def)
  from shape len have T: "?T = map (\<lambda>j. 1 * 0.9 ^ j) [0..<20]" by simp
  have lt: "(0.9::real) ^ 20 < 0.9 ^ j" if "j < 20" for j
    using that by (intro power_strict_decreasing) simp_all
  have "(0.9::real) ^ 20 \<notin> set (map (\<lambda>j. 1 * 0.9 ^ j) [0..<20])"
  proof
    assume "(0.9::real) ^ 20 \<in> set (map (\<lambda>j. 1 * 0.9 ^ j) [0..<20])"
    then obtain j where "j < 20" and "(0.9::real) ^ 20 = 0.9 ^ j"
      by (auto simp del: upt_Suc)
    with lt [of j] show False by simp
  qed
  with T res show ?thesis by simp
qed

lemma totalWidth_empty: "totalWidth widthOf [] fontSize = (fontSize * 0.08) * (0 - 1)"
  by (simp add: totalWidth_def)

text \<open>
  C10. For the empty text, a positive \<open>maxFontSize\<close>, a positive \<open>radius\<close> and a
  \<open>maxAngle\<close> that is not negative, the total width is \<open>spacing * (0 - 1)\<close>, which is
  negative, the first check passes, and \<open>fitFontSize\<close> returns \<open>maxFontSize\<close> after that
  one attempt.
\<close>

theorem fitFontSize_empty:
  assumes "0 < maxFontSize" and "0 < radius" and "0 \<le> maxAngle"
  shows "totalWidth widthOf [] maxFontSize = (maxFontSize * 0.08) * (0 - 1)
         \<and> totalWidth widthOf [] maxFontSize < 0
         \<and> fitFontSize widthOf [] maxFontSize radius maxAngle = maxFontSize
         \<and> triedSizes widthOf [] maxFontSize radius maxAngle = [maxFontSize]"
proof -
  have w: "totalWidth widthOf [] maxFontSize < 0"
    using assms(1) by (simp add: totalWidth_def)
  then have "totalWidth widthOf [] maxFontSize / radius < 0"
    using assms(2) by (simp add: divide_neg_pos)
  with assms(3) have "totalAngle widthOf [] radius maxFontSize \<le> maxAngle"
    by (simp add: totalAngle_def)
  then have "fitLoop widthOf [] radius maxAngle 0 maxFontSize = (maxFontSize, [maxFontSize])"
    by (intro fitLoop_pass) simp_all
  with w show ?thesis
    by (simp add: fitFontSize_def triedSizes_def totalWidth_empty)
qed

theorem fitFontSize_empty_witness:
  "(0::real) < 12 \<and> (0::real) < 50 \<and> (0::real) \<le> 4.4
   \<and> fitFontSize (\<lambda>c s. s / 2) ([]::char list) 12 50 4.4 = 12
   \<and> triedSizes (\<lambda>c s. s / 2) ([]::char list) 12 50 4.4 = [12]
   \<and> totalWidth (\<lambda>c s. s / 2) ([]::char list) 12 = - 0.96"
  using fitFontSize_empty [of 12 50 "4.4" "\<lambda>(c::char) s. s / 2"]
  by simp

lemma foldl_widths:
  "foldl (\<lambda>sum c. sum + f c) a chars = a + sum_list (map f chars)"
  by (induction chars arbitrary: a) (simp_all add: add.assoc)

lemma totalWidth_scaled:
  "totalWidth (scaledWidth unitWidth) chars fontSize
   = fontSize * (sum_list (map unitWidth chars) + 0.08 * (real (length chars) - 1))"
proof -
  have scaled: "sum_list (map (\<lambda>c. unitWidth c * fontSize) chars)
                = fontSize * sum_list (map unitWidth chars)"
    by (induction chars) (simp_all add: distrib_left mult.commute)
  have "totalWidth (scaledWidth unitWidth) chars fontSize
        = fontSize * sum_list (map unitWidth chars)
          + fontSize * 0.08 * (real (length chars) - 1)"
    by (simp only: totalWidth_def Let_def scaledWidth_def foldl_widths scaled add_0_left)
  also have "\<dots> = fontSize * (sum_list (map unitWidth chars)
                        + 0.08 * (real (length chars) - 1))"
    by (simp only: distrib_left mult.assoc)
  finally show ?thesis .
qed

text \<open>
  For a size that is not negative and glyph widths that are not negative, more
  characters are not narrower, and on a positive radius their angle is not smaller.
\<close>

lemma totalAngle_append:
  assumes "0 \<le> fontSize" and "0 < radius" and "\<And>c. 0 \<le> unitWidth c"
  shows "totalAngle (scaledWidth unitWidth) chars radius fontSize
         \<le> totalAngle (scaledWidth unitWidth) (chars @ extra) radius fontSize"
proof -
  have "0 \<le> sum_list (map unitWidth extra)"
    using assms(3) by (induction extra) simp_all
  then have sums: "sum_list (map unitWidth chars) \<le> sum_list (map unitWidth (chars @ extra))"
    by simp
  have "(0.08::real) * (real (length chars) - 1) \<le> 0.08 * (real (length (chars @ extra)) - 1)"
    by (rule mult_left_mono) simp_all
  with sums have "sum_list (map unitWidth chars) + 0.08 * (real (length chars) - 1)
             \<le> sum_list (map unitWidth (chars @ extra))
                + 0.08 * (real (length (chars @ extra)) - 1)"
    by (rule add_mono)
  then have "totalWidth (scaledWidth unitWidth) chars fontSize
             \<le> totalWidth (scaledWidth unitWidth) (chars @ extra) fontSize"
    unfolding totalWidth_scaled using assms(1) by (rule mult_left_mono)
  then show ?thesis
    unfolding totalAngle_def using assms(2) by (simp add: divide_right_mono)
qed

lemma fitLoop_append:
  assumes "0 < radius" and "\<And>c. 0 \<le> unitWidth c"
  shows "0 \<le> fontSize \<Longrightarrow>
         fst (fitLoop (scaledWidth unitWidth) (chars @ extra) radius maxAngle attempt fontSize)
         \<le> fst (fitLoop (scaledWidth unitWidth) chars radius maxAngle attempt fontSize)"
proof (induction n \<equiv> "20 - attempt" arbitrary: attempt fontSize)
  case 0
  then show ?case by (simp add: fitLoop_done)
next
  case (Suc n)
  then have lt: "attempt < 20" and n: "n = 20 - Suc attempt" by simp_all
  have pos: "0 \<le> fontSize * 0.9" using Suc.prems by simp
  have mono: "totalAngle (scaledWidth unitWidth) chars radius fontSize
              \<le> totalAngle (scaledWidth unitWidth) (chars @ extra) radius fontSize"
    using Suc.prems assms by (intro totalAngle_append) simp_all
  show ?case
  proof (cases "totalAngle (scaledWidth unitWidth) (chars @ extra) radius fontSize \<le> maxAngle")
    case True
    with mono have "totalAngle (scaledWidth unitWidth) chars radius fontSize \<le> maxAngle"
      by simp
    with True lt show ?thesis by (simp add: fitLoop_pass)
  next
    case long_fails: False
    show ?thesis
    proof (cases "totalAngle (scaledWidth unitWidth) chars radius fontSize \<le> maxAngle")
      case True
      have l: "fst (fitLoop (scaledWidth unitWidth) (chars @ extra) radius maxAngle attempt fontSize)
               = fst (fitLoop (scaledWidth unitWidth) (chars @ extra) radius maxAngle (Suc attempt)
                   (fontSize * 0.9))"
        using lt long_fails by (rule fitLoop_fail_fst)
      have r: "fst (fitLoop (scaledWidth unitWidth) chars radius maxAngle attempt fontSize)
               = fontSize"
        using lt True by (simp add: fitLoop_pass)
      have "fst (fitLoop (scaledWidth unitWidth) (chars @ extra) radius maxAngle (Suc attempt)
                   (fontSize * 0.9)) \<le> fontSize * 0.9"
        using fitLoop_result_bounds [OF pos] by blast
      also have "\<dots> \<le> fontSize" using Suc.prems by simp
      finally show ?thesis unfolding l r .
    next
      case False
      with Suc.hyps(1) [OF n pos] lt long_fails show ?thesis
        by (simp add: fitLoop_fail_fst)
    qed
  qed
qed

text \<open>
  C6. For a positive \<open>radius\<close>, a \<open>maxFontSize\<close> that is not negative and glyph widths
  that are linear in the font size and not negative, a text with characters appended
  never gets a larger font size from \<open>fitFontSize\<close> than the text itself, and the size
  returned is never above \<open>maxFontSize\<close>.
\<close>

theorem fitFontSize_append:
  assumes "0 < radius" and "0 \<le> maxFontSize" and "\<forall>c. 0 \<le> unitWidth c"
  shows "fitFontSize (scaledWidth unitWidth) (text @ extra) maxFontSize radius maxAngle
           \<le> fitFontSize (scaledWidth unitWidth) text maxFontSize radius maxAngle
         \<and> fitFontSize (scaledWidth unitWidth) text maxFontSize radius maxAngle \<le> maxFontSize"
  using assms fitLoop_append [of radius unitWidth maxFontSize "text" extra maxAngle 0]
    fitLoop_result_bounds [of maxFontSize "scaledWidth unitWidth" "text" radius maxAngle 0]
  by (simp add: fitFontSize_def)

theorem fitFontSize_append_witness:
  "(0::real) < 1 \<and> (0::real) \<le> 1 \<and> (\<forall>c::char. (0::real) \<le> 1)
   \<and> fitFontSize (scaledWidth (\<lambda>c. 1)) (''A'' @ ''B'') 1 1 2 = 0.9
   \<and> fitFontSize (scaledWidth (\<lambda>c. 1)) ''A'' 1 1 2 = 1
   \<and> fitFontSize (scaledWidth (\<lambda>c. 1)) (''A'' @ ''B'') 1 1 2
       \<le> fitFontSize (scaledWidth (\<lambda>c. 1)) ''A'' 1 1 2"
  using fitFontSize_append [of 1 1 "\<lambda>c::char. 1" "''A''" "''B''" 2]
  by (simp add: fitFontSize_def fitLoop_fail fitLoop_pass totalAngle_def totalWidth_def
        scaledWidth_def)

section \<open>Merging and splitting: proofs\<close>

lemma copyPages_ok:
  "list_all (inRange srcDoc) indices \<Longrightarrow>
   copyPages srcDoc indices = Inr (map (\<lambda>i. srcDoc ! nat i) indices)"
  by (induction indices) simp_all

lemma copyPages_fail:
  "\<not> list_all (inRange srcDoc) indices \<Longrightarrow> copyPages srcDoc indices = Inl IndexError"
  by (induction indices) (auto split: sum.splits)

lemma foldl_addPage: "foldl addPage d pages = d @ pages"
  by (induction pages arbitrary: d) (simp_all add: addPage_def)

lemma copy_all_pages: "map (\<lambda>i. d ! nat i) (getPageIndices d) = d"
  by (simp add: getPageIndices_def o_def map_nth)

lemma all_indices_inRange: "list_all (inRange d) (getPageIndices d)"
  by (simp add: getPageIndices_def list_all_iff inRange_def getPageCount_def)

lemma mergePdfs_pages:
  "mergePdfs (Pdf d1) (Pdf d2) = Inr (pdfSave (d1 @ d2))"
  by (simp add: mergePdfs_def pdfLoad_def copyPages_ok all_indices_inRange copy_all_pages
        foldl_addPage)

text \<open>
  \<open>splitPdf\<close> on a document of \<open>p\<close> pages: between \<open>-1\<close> and \<open>p - 1\<close> it returns the two
  parts; from \<open>p\<close> on the first copy reads a page that is not there; below \<open>-1\<close> the
  second copy starts at a negative index.
\<close>

lemma copyPages_arrayFrom:
  assumes f: "\<And>i. i < nat len \<Longrightarrow> f (int i) = int start + int i"
    and fits: "start + nat len \<le> length d"
  shows "copyPages d (arrayFrom len f) = Inr (take (nat len) (drop start d))"
proof -
  have idx: "arrayFrom len f = map (\<lambda>i. int start + int i) [0..<nat len]"
    unfolding arrayFrom_def using f by simp
  have "list_all (inRange d) (map (\<lambda>i. int start + int i) [0..<nat len])"
    using fits by (auto simp: list_all_iff inRange_def getPageCount_def)
  then have "copyPages d (arrayFrom len f)
             = Inr (map (\<lambda>i. d ! nat i) (map (\<lambda>i. int start + int i) [0..<nat len]))"
    unfolding idx by (rule copyPages_ok)
  moreover have "map (\<lambda>i. d ! nat i) (map (\<lambda>i. int start + int i) [0..<nat len])
                 = take (nat len) (drop start d)"
    using fits by (simp add: list_eq_iff_nth_eq nat_add_distrib)
  ultimately show ?thesis by simp
qed

lemma splitPdf_inside:
  assumes "- 1 \<le> afterPageIndex" and "afterPageIndex \<le> getPageCount d - 1"
  shows "splitPdf (Pdf d) afterPageIndex
         = Inr (pdfSave (take (nat (afterPageIndex + 1)) d),
                pdfSave (drop (nat (afterPageIndex + 1)) d))"
proof -
  have "copyPages d (arrayFrom (afterPageIndex + 1) (\<lambda>i. i))
        = Inr (take (nat (afterPageIndex + 1)) (drop 0 d))"
    using assms by (intro copyPages_arrayFrom) (simp_all add: getPageCount_def)
  then have c1: "copyPages d (arrayFrom (afterPageIndex + 1) (\<lambda>i. i))
        = Inr (take (nat (afterPageIndex + 1)) d)"
    by simp
  have "copyPages d (arrayFrom (getPageCount d - afterPageIndex - 1) (\<lambda>i. afterPageIndex + 1 + i))
        = Inr (take (nat (getPageCount d - afterPageIndex - 1)) (drop (nat (afterPageIndex + 1)) d))"
    using assms by (intro copyPages_arrayFrom) (simp_all add: getPageCount_def)
  moreover have "nat (getPageCount d - afterPageIndex - 1)
                 = length (drop (nat (afterPageIndex + 1)) d)"
    using assms by (simp add: getPageCount_def)
  ultimately have c2:
    "copyPages d (arrayFrom (getPageCount d - afterPageIndex - 1) (\<lambda>i. afterPageIndex + 1 + i))
     = Inr (drop (nat (afterPageIndex + 1)) d)"
    by simp
  show ?thesis
    by (simp only: splitPdf_def pdfLoad_def Let_def pdf_bytes.case sum.case c1 c2 foldl_addPage
          append_Nil)
qed

lemma splitPdf_above:
  assumes "getPageCount d \<le> afterPageIndex"
  shows "splitPdf (Pdf d) afterPageIndex = Inl IndexError"
proof -
  have "afterPageIndex \<in> set (arrayFrom (afterPageIndex + 1) (\<lambda>i. i))"
  proof -
    have "0 \<le> afterPageIndex" using assms by (simp add: getPageCount_def)
    then have "nat afterPageIndex < nat (afterPageIndex + 1)" and "int (nat afterPageIndex) = afterPageIndex"
      by simp_all
    then show ?thesis
      unfolding arrayFrom_def by (metis (no_types, lifting) atLeast0LessThan image_eqI lessThan_iff set_map set_upt)
  qed
  moreover have "\<not> inRange d afterPageIndex"
    using assms by (simp add: inRange_def)
  ultimately have "\<not> list_all (inRange d) (arrayFrom (afterPageIndex + 1) (\<lambda>i. i))"
    by (auto simp: list_all_iff)
  then show ?thesis
    by (simp add: splitPdf_def pdfLoad_def copyPages_fail)
qed

lemma splitPdf_below:
  assumes "afterPageIndex < - 1"
  shows "splitPdf (Pdf d) afterPageIndex = Inl IndexError"
proof -
  have c1: "copyPages d (arrayFrom (afterPageIndex + 1) (\<lambda>i. i)) = Inr []"
    using assms by (simp add: arrayFrom_def)
  have "0 < nat (getPageCount d - afterPageIndex - 1)"
    using assms by (simp add: getPageCount_def)
  then have "afterPageIndex + 1 + int 0
             \<in> set (arrayFrom (getPageCount d - afterPageIndex - 1) (\<lambda>i. afterPageIndex + 1 + i))"
    unfolding arrayFrom_def by (metis (no_types, lifting) atLeast0LessThan image_eqI lessThan_iff set_map set_upt)
  moreover have "\<not> inRange d (afterPageIndex + 1 + int 0)"
    using assms by (simp add: inRange_def)
  ultimately have "\<not> list_all (inRange d)
      (arrayFrom (getPageCount d - afterPageIndex - 1) (\<lambda>i. afterPageIndex + 1 + i))"
    by (auto simp: list_all_iff)
  then show ?thesis
    by (simp add: splitPdf_def pdfLoad_def c1 copyPages_fail)
qed

text \<open>
  C3, as the code has it. \<open>splitPdf\<close> checks nothing itself: on a document that decodes
  it fails, with the index error of the copy that reads a missing page, exactly when
  \<open>afterPageIndex\<close> is below \<open>-1\<close> or at least the page count. The \<open>split-pdf\<close> handler
  throws on every negative index first, so through it the call fails exactly when
  \<open>afterPageIndex\<close> is negative or at least the page count. At the last valid page
  index, \<open>pageCount - 1\<close>, neither fails.
\<close>

theorem splitPdf_failure_range:
  "(splitPdf (Pdf d) afterPageIndex = Inl IndexError
      \<longleftrightarrow> afterPageIndex < - 1 \<or> getPageCount d \<le> afterPageIndex)
   \<and> (isl (splitPdf (Pdf d) afterPageIndex)
      \<longleftrightarrow> afterPageIndex < - 1 \<or> getPageCount d \<le> afterPageIndex)
   \<and> (isl (splitPdfHandler (Pdf d) afterPageIndex)
      \<longleftrightarrow> afterPageIndex < 0 \<or> getPageCount d \<le> afterPageIndex)"
proof (cases "afterPageIndex < - 1 \<or> getPageCount d \<le> afterPageIndex")
  case True
  then have "splitPdf (Pdf d) afterPageIndex = Inl IndexError"
    using splitPdf_below splitPdf_above by blast
  with True show ?thesis
    by (auto simp: splitPdfHandler_def)
next
  case False
  then have "splitPdf (Pdf d) afterPageIndex
         = Inr (pdfSave (take (nat (afterPageIndex + 1)) d),
                pdfSave (drop (nat (afterPageIndex + 1)) d))"
    by (intro splitPdf_inside) simp_all
  with False show ?thesis
    by (auto simp: splitPdfHandler_def)
qed

text \<open>
  A document of three pages split after index 2, its last page: the call returns the
  whole document and a second part that \<open>save\<close> fills with one blank page, from
  \<open>splitPdf\<close> and from the handler. At \<open>-1\<close> \<open>splitPdf\<close> returns as well.
\<close>

theorem splitPdf_last_index_counterexample:
  "splitPdf (Pdf [Page 595.28 841.89 0 [Original 0], Page 595.28 841.89 0 [Original 1],
                  Page 595.28 841.89 0 [Original 2]]) 2
     = Inr (Pdf [Page 595.28 841.89 0 [Original 0], Page 595.28 841.89 0 [Original 1],
                 Page 595.28 841.89 0 [Original 2]],
            Pdf [blankPage])
   \<and> splitPdfHandler
       (Pdf [Page 595.28 841.89 0 [Original 0], Page 595.28 841.89 0 [Original 1],
             Page 595.28 841.89 0 [Original 2]]) 2
     = Inr (Pdf [Page 595.28 841.89 0 [Original 0], Page 595.28 841.89 0 [Original 1],
                 Page 595.28 841.89 0 [Original 2]],
            Pdf [blankPage])
   \<and> splitPdf (Pdf [Page 595.28 841.89 0 [Original 0], Page 595.28 841.89 0 [Original 1],
                  Page 595.28 841.89 0 [Original 2]]) (- 1)
     = Inr (Pdf [blankPage],
            Pdf [Page 595.28 841.89 0 [Original 0], Page 595.28 841.89 0 [Original 1],
                 Page 595.28 841.89 0 [Original 2]])"
  by (simp add: splitPdfHandler_def splitPdf_inside getPageCount_def pdfSave_def)

text \<open>
  C7. For a document of \<open>p\<close> pages and \<open>0 \<le> k \<le> p - 2\<close>, \<open>splitPdf\<close> returns a first part
  of \<open>k + 1\<close> pages and a second part of \<open>p - k - 1\<close> pages, and \<open>mergePdfs\<close> of the two
  parts returns the pages of the document again, so \<open>p\<close> pages.
\<close>

theorem split_merge_roundtrip:
  assumes "0 \<le> k" and "k \<le> getPageCount d - 2"
  shows "splitPdf (Pdf d) k = Inr (Pdf (take (nat k + 1) d), Pdf (drop (nat k + 1) d))
         \<and> getPageCount (take (nat k + 1) d) = k + 1
         \<and> getPageCount (drop (nat k + 1) d) = getPageCount d - k - 1
         \<and> mergePdfs (Pdf (take (nat k + 1) d)) (Pdf (drop (nat k + 1) d)) = Inr (Pdf d)
         \<and> pdfLoad (Pdf d) = Inr d"
proof -
  have n: "nat (k + 1) = nat k + 1" and lt: "nat k + 1 < length d"
    using assms by (simp_all add: getPageCount_def)
  then have ne: "take (nat k + 1) d \<noteq> []" "drop (nat k + 1) d \<noteq> []" "d \<noteq> []"
    by auto
  have "splitPdf (Pdf d) k = Inr (pdfSave (take (nat k + 1) d), pdfSave (drop (nat k + 1) d))"
    using assms splitPdf_inside [of k d] by (simp add: n)
  with ne have split: "splitPdf (Pdf d) k = Inr (Pdf (take (nat k + 1) d), Pdf (drop (nat k + 1) d))"
    by (simp add: pdfSave_def)
  have merge: "mergePdfs (Pdf (take (nat k + 1) d)) (Pdf (drop (nat k + 1) d)) = Inr (Pdf d)"
    using ne by (simp add: mergePdfs_pages pdfSave_def)
  have counts: "getPageCount (take (nat k + 1) d) = k + 1"
    "getPageCount (drop (nat k + 1) d) = getPageCount d - k - 1"
    using assms lt by (simp_all add: getPageCount_def)
  from split merge counts show ?thesis by (simp add: pdfLoad_def)
qed

theorem split_merge_roundtrip_witness:
  "(0::int) \<le> 0
   \<and> 0 \<le> getPageCount [Page 100 200 0 [Original 0], Page 100 200 90 [Original 1],
                          Page 300 200 0 [Original 2]] - 2
   \<and> splitPdf (Pdf [Page 100 200 0 [Original 0], Page 100 200 90 [Original 1],
                    Page 300 200 0 [Original 2]]) 0
     = Inr (Pdf [Page 100 200 0 [Original 0]],
            Pdf [Page 100 200 90 [Original 1], Page 300 200 0 [Original 2]])
   \<and> mergePdfs (Pdf [Page 100 200 0 [Original 0]])
        (Pdf [Page 100 200 90 [Original 1], Page 300 200 0 [Original 2]])
     = Inr (Pdf [Page 100 200 0 [Original 0], Page 100 200 90 [Original 1],
                 Page 300 200 0 [Original 2]])"
  using split_merge_roundtrip [of 0 "[Page 100 200 0 [Original 0], Page 100 200 90 [Original 1],
                          Page 300 200 0 [Original 2]]"]
  by (simp add: getPageCount_def)

text \<open>
  C8, as the code has it. For documents of \<open>p\<close> and \<open>q\<close> pages that are not both
  without pages, \<open>mergePdfs\<close> returns the pages of the first followed by the pages of
  the second, each in its order: \<open>p + q\<close> pages.
\<close>

theorem mergePdfs_appends:
  assumes "d1 \<noteq> [] \<or> d2 \<noteq> []"
  shows "mergePdfs (Pdf d1) (Pdf d2) = Inr (Pdf (d1 @ d2))
         \<and> getPageCount (d1 @ d2) = getPageCount d1 + getPageCount d2"
  using assms by (auto simp: mergePdfs_pages pdfSave_def getPageCount_def)

theorem mergePdfs_appends_witness:
  "[Page 100 200 0 [Original 0]] \<noteq> []
   \<and> mergePdfs (Pdf [Page 100 200 0 [Original 0]]) (Pdf [Page 300 200 90 [Original 1]])
     = Inr (Pdf [Page 100 200 0 [Original 0], Page 300 200 90 [Original 1]])"
  using mergePdfs_appends [of "[Page 100 200 0 [Original 0]]" "[Page 300 200 90 [Original 1]]"]
  by simp

text \<open>
  Two documents without pages: \<open>save\<close> adds its default page to the merged document,
  which has one page, not \<open>0 + 0\<close>.
\<close>

theorem mergePdfs_empty_counterexample:
  "mergePdfs (Pdf []) (Pdf []) = Inr (Pdf [blankPage])
   \<and> getPageCount [blankPage] \<noteq> getPageCount [] + getPageCount []"
  by (simp add: mergePdfs_pages pdfSave_def getPageCount_def)

section \<open>Applying stamps: proofs\<close>

lemma mapSet_keys:
  "map fst (mapSet m k v) = (if k \<in> fst ` set m then map fst m else map fst m @ [k])"
proof (induction m)
  case Nil
  show ?case by simp
next
  case (Cons e m)
  show ?case
  proof (cases "fst e = k")
    case True
    then show ?thesis by (cases e) simp
  next
    case False
    with Cons show ?thesis by (cases e) auto
  qed
qed

lemma addPlacement_keys:
  "map fst (addPlacement m p)
   = (if plPageIndex p \<in> fst ` set m then map fst m else map fst m @ [plPageIndex p])"
  by (simp only: addPlacement_def Let_def mapSet_keys)

lemma placementsByPage_keys:
  "set (map fst (foldl addPlacement m placements))
   = set (map fst m) \<union> plPageIndex ` set placements"
proof (induction placements arbitrary: m)
  case Nil
  show ?case by simp
next
  case (Cons p placements)
  have "set (map fst (addPlacement m p)) = insert (plPageIndex p) (set (map fst m))"
    unfolding addPlacement_keys by auto
  with Cons [of "addPlacement m p"] show ?case by auto
qed

lemma placementsByPage_distinct:
  "distinct (map fst m) \<Longrightarrow> distinct (map fst (foldl addPlacement m placements))"
proof (induction placements arbitrary: m)
  case Nil
  then show ?case by simp
next
  case (Cons p placements)
  have "distinct (map fst (addPlacement m p))"
    unfolding addPlacement_keys using Cons.prems by auto
  from Cons.IH [OF this] show ?case by simp
qed

lemma sortedPageIndices_set:
  "set (sortedPageIndicesOf (placementsByPageOf placements)) = plPageIndex ` set placements"
  using placementsByPage_keys [of "[]" placements]
  by (simp add: sortedPageIndicesOf_def placementsByPageOf_def)

lemma sortedPageIndices_distinct:
  "distinct (sortedPageIndicesOf (placementsByPageOf placements))"
  by (simp add: sortedPageIndicesOf_def placementsByPageOf_def placementsByPage_distinct)

lemma placementsByPage_get:
  "k \<in> plPageIndex ` set placements \<Longrightarrow> map_of (placementsByPageOf placements) k \<noteq> None"
  using placementsByPage_keys [of "[]" placements]
  by (simp add: map_of_eq_None_iff placementsByPageOf_def)

text \<open>
  With texts the font encodes, drawing stamps on a page succeeds and leaves its size
  and its rotation flag as they are.
\<close>

lemma drawEach_frame:
  assumes "fontEncodes (cfgLawyerName config)" and "fontEncodes (cfgBottomText config)"
  shows "\<exists>stamped. drawEach fontEncodes r config page pls = Inr stamped
           \<and> pwidth stamped = pwidth page \<and> pheight stamped = pheight page
           \<and> protation stamped = protation page"
proof (induction pls arbitrary: page)
  case Nil
  show ?case by simp
next
  case (Cons pl pls)
  let ?drawn = "Page (pwidth page) (pheight page) (protation page)
                  (pcontents page @ [DrawStamp (plX pl) (plY pl) r (cfgLawyerName config)
                     (cfgBottomText config) (plNumber pl)])"
  have "drawEach fontEncodes r config (page) (pl # pls) = drawEach fontEncodes r config ?drawn pls"
    using assms by (simp add: drawStampOnPage_def)
  with Cons [of ?drawn] show ?case by simp
qed

lemma drawPlacements_frame:
  assumes "fontEncodes (cfgLawyerName config)" and "fontEncodes (cfgBottomText config)"
  shows "\<exists>stamped. drawPlacements fontEncodes page r config (Some pls) = Inr stamped
           \<and> pwidth stamped = pwidth page \<and> pheight stamped = pheight page
           \<and> protation stamped = protation page"
  using drawEach_frame [OF assms] by (simp add: drawPlacements_def)

text \<open>Removing the page at an index and inserting a page there replaces the page.\<close>

lemma remove_insert:
  assumes "inRange d k"
  shows "\<exists>removed. removePage d k = Inr removed
           \<and> (\<forall>p. \<exists>inserted. insertPage removed k p = Inr inserted
                    \<and> (\<forall>q. inserted[nat k := q] = d[nat k := q]))"
proof -
  from assms have n: "nat k < length d" and k: "0 \<le> k"
    by (auto simp: inRange_def getPageCount_def nat_less_iff)
  let ?removed = "take (nat k) d @ drop (Suc (nat k)) d"
  have r: "removePage d k = Inr ?removed"
    using assms by (simp add: removePage_def)
  have i: "insertPage ?removed k p = Inr (d[nat k := p])" for p
    using n k by (simp add: insertPage_def getPageCount_def upd_conv_take_nth_drop min_def)
  from r i show ?thesis by simp
qed

text \<open>
  One turn of the loop on a page that is there, with placements for it, texts the font
  encodes and, where the page is rotated, a source document that has the page: the
  page is replaced by one without rotation flag, of the visual size, and a rotated
  page's source is registered for embedding.
\<close>

lemma stampPage_ok:
  assumes k: "inRange d k"
    and pls: "map_of byPage k = Some pls"
    and enc: "fontEncodes (cfgLawyerName config)" "fontEncodes (cfgBottomText config)"
    and src: "protation (d ! nat k) \<noteq> 0 \<Longrightarrow> srcDoc = Some s \<and> inRange s k"
  shows "\<exists>p'. stampPage fontEncodes config srcDoc byPage (d, emb) k
             = Inr (d[nat k := p'],
                    if protation (d ! nat k) = 0 then emb else emb @ [s ! nat k])
           \<and> protation p' = 0
           \<and> pwidth p' = visualWidth (d ! nat k)
           \<and> pheight p' = visualHeight (d ! nat k)"
proof (cases "protation (d ! nat k) = 0")
  case True
  let ?page = "d ! nat k"
  obtain stamped where
    st: "drawPlacements fontEncodes ?page
           (cfgRadius config * (min (pwidth ?page) (pheight ?page) / A4_SHORT))
           config (Some pls) = Inr stamped"
    and fr: "pwidth stamped = pwidth ?page" "pheight stamped = pheight ?page"
      "protation stamped = protation ?page"
    using drawPlacements_frame [OF enc] by blast
  have "stampPage fontEncodes config srcDoc byPage (d, emb) k = Inr (d[nat k := stamped], emb)"
    using k True by (simp add: stampPage_def getPage_def pls st del: times_divide_eq_right)
  with fr True show ?thesis
    by (auto simp: visualWidth_def visualHeight_def)
next
  case False
  let ?page = "d ! nat k"
  let ?new = "Page (visualWidth ?page) (visualHeight ?page) 0 []"
  from src [OF False] have s: "srcDoc = Some s" "inRange s k" by simp_all
  let ?drawn = "drawPage ?new (s ! nat k)
                  (drawPageOptions (protation ?page) (pwidth ?page) (pheight ?page))"
  obtain stamped where
    st: "drawPlacements fontEncodes ?drawn
           (cfgRadius config * (min (visualWidth ?page) (visualHeight ?page) / A4_SHORT))
           config (Some pls) = Inr stamped"
    and fr: "pwidth stamped = pwidth ?drawn" "pheight stamped = pheight ?drawn"
      "protation stamped = protation ?drawn"
    using drawPlacements_frame [OF enc] by blast
  from remove_insert [OF k] obtain removed inserted where
    rm: "removePage d k = Inr removed"
    and ins: "insertPage removed k ?new = Inr inserted"
    and upd: "inserted[nat k := stamped] = d[nat k := stamped]"
    by metis
  have "stampPage fontEncodes config srcDoc byPage (d, emb) k
        = Inr (inserted[nat k := stamped], emb @ [s ! nat k])"
    unfolding stampPage_def Let_def
    using k False s rm ins st
    by (simp add: getPage_def pls visualWidth_def visualHeight_def del: times_divide_eq_right)
  with upd fr False show ?thesis
    by (auto simp: drawPage_def)
qed

text \<open>
  The whole loop, over distinct indices of pages that are there. The source document
  is as long as the document, or no page in the list is rotated. The pages registered
  for embedding are the source's pages at the rotated indices.
\<close>

lemma stampPages_ok:
  assumes "distinct ks"
    and "\<forall>k \<in> set ks. inRange d k \<and> map_of byPage k \<noteq> None"
    and "fontEncodes (cfgLawyerName config)" and "fontEncodes (cfgBottomText config)"
    and "(srcDoc = Some s \<and> length s = length d)
         \<or> (\<forall>k \<in> set ks. protation (d ! nat k) = 0)"
  shows "\<exists>d' emb'. stampPages fontEncodes config srcDoc byPage (d, emb) ks = Inr (d', emb')
           \<and> length d' = length d
           \<and> (\<forall>k \<in> set ks. protation (d' ! nat k) = 0
                  \<and> pwidth (d' ! nat k) = visualWidth (d ! nat k)
                  \<and> pheight (d' ! nat k) = visualHeight (d ! nat k))
           \<and> (\<forall>j. j \<notin> nat ` set ks \<longrightarrow> d' ! j = d ! j)
           \<and> set emb' = set emb \<union> (\<lambda>k. s ! nat k) ` {k \<in> set ks. protation (d ! nat k) \<noteq> 0}"
  using assms
proof (induction ks arbitrary: d emb)
  case Nil
  show ?case by simp
next
  case (Cons k ks)
  note enc = Cons.prems(3,4)
  from Cons.prems(2) have k: "inRange d k" and some: "map_of byPage k \<noteq> None" by simp_all
  then obtain pls where pls: "map_of byPage k = Some pls" by blast
  have src: "srcDoc = Some s \<and> inRange s k" if "protation (d ! nat k) \<noteq> 0"
    using Cons.prems(5) that k by (auto simp: inRange_def getPageCount_def)
  let ?emb1 = "if protation (d ! nat k) = 0 then emb else emb @ [s ! nat k]"
  from stampPage_ok [OF k pls enc src, of emb] obtain p' where
    step: "stampPage fontEncodes config srcDoc byPage (d, emb) k = Inr (d[nat k := p'], ?emb1)"
    and p': "protation p' = 0" "pwidth p' = visualWidth (d ! nat k)"
      "pheight p' = visualHeight (d ! nat k)"
    by blast
  let ?d1 = "d[nat k := p']"
  have other: "nat j \<noteq> nat k" if "j \<in> set ks" for j
  proof -
    from that Cons.prems(1) have "j \<noteq> k" by auto
    moreover from that Cons.prems(2) have "0 \<le> j" by (simp add: inRange_def)
    moreover from k have "0 \<le> k" by (simp add: inRange_def)
    ultimately show ?thesis by simp
  qed
  have same: "?d1 ! nat j = d ! nat j" if "j \<in> set ks" for j
    using other [OF that] by simp
  have 1: "distinct ks" using Cons.prems(1) by simp
  have 2: "\<forall>j \<in> set ks. inRange ?d1 j \<and> map_of byPage j \<noteq> None"
    using Cons.prems(2) by (simp add: inRange_def getPageCount_def)
  have 3: "(srcDoc = Some s \<and> length s = length ?d1)
           \<or> (\<forall>j \<in> set ks. protation (?d1 ! nat j) = 0)"
    using Cons.prems(5) same by auto
  from Cons.IH [OF 1 2 enc 3, of ?emb1] obtain d' emb' where
    run: "stampPages fontEncodes config srcDoc byPage (?d1, ?emb1) ks = Inr (d', emb')"
    and len: "length d' = length ?d1"
    and marks: "\<forall>j \<in> set ks. protation (d' ! nat j) = 0
                  \<and> pwidth (d' ! nat j) = visualWidth (?d1 ! nat j)
                  \<and> pheight (d' ! nat j) = visualHeight (?d1 ! nat j)"
    and rest: "\<forall>j. j \<notin> nat ` set ks \<longrightarrow> d' ! j = ?d1 ! j"
    and embs: "set emb' = set ?emb1
                 \<union> (\<lambda>j. s ! nat j) ` {j \<in> set ks. protation (?d1 ! nat j) \<noteq> 0}"
    by blast
  have "nat k \<notin> nat ` set ks"
  proof
    assume "nat k \<in> nat ` set ks"
    then obtain j where "j \<in> set ks" and "nat k = nat j" by (rule imageE)
    with other [of j] show False by simp
  qed
  with rest have "d' ! nat k = ?d1 ! nat k" by blast
  moreover have "nat k < length d"
    using k by (auto simp: inRange_def getPageCount_def nat_less_iff)
  ultimately have here: "d' ! nat k = p'" by simp
  have rotated: "{j \<in> set ks. protation (?d1 ! nat j) \<noteq> 0}
                 = {j \<in> set ks. protation (d ! nat j) \<noteq> 0}"
    using same by auto
  have "stampPages fontEncodes config srcDoc byPage (d, emb) (k # ks) = Inr (d', emb')"
    by (simp add: step run)
  moreover have "length d' = length d" using len by simp
  moreover have "\<forall>j \<in> set (k # ks). protation (d' ! nat j) = 0
                  \<and> pwidth (d' ! nat j) = visualWidth (d ! nat j)
                  \<and> pheight (d' ! nat j) = visualHeight (d ! nat j)"
    using marks same here p' by simp
  moreover have "\<forall>j. j \<notin> nat ` set (k # ks) \<longrightarrow> d' ! j = d ! j"
    using rest by auto
  moreover have "set emb' = set emb
                   \<union> (\<lambda>j. s ! nat j) ` {j \<in> set (k # ks). protation (d ! nat j) \<noteq> 0}"
    unfolding embs rotated by auto
  ultimately show ?case by blast
qed

lemma hasRotatedPages_ok:
  "\<forall>k \<in> set ks. inRange d k \<Longrightarrow>
   hasRotatedPagesOf d ks = Inr (\<exists>k \<in> set ks. protation (d ! nat k) \<noteq> 0)"
  by (induction ks) (auto simp: getPage_def)

text \<open>
  \<open>applyStamps\<close> on placements that all name a page of the document, with texts the
  font encodes: it fails at \<open>save\<close> when a rotated page under a placement has no
  content stream, and otherwise returns the document with those pages replaced.
\<close>

lemma applyStamps_ok:
  assumes "\<forall>pl \<in> set placements. inRange d (plPageIndex pl)"
    and "fontEncodes (cfgLawyerName config)" and "fontEncodes (cfgBottomText config)"
  shows "\<exists>d'. applyStamps fontEncodes (Pdf d) placements config
             = (if \<forall>pl \<in> set placements.
                      protation (d ! nat (plPageIndex pl)) \<noteq> 0 \<longrightarrow>
                      pcontents (d ! nat (plPageIndex pl)) \<noteq> []
                then Inr (pdfSave d') else Inl MissingPageContents)
           \<and> length d' = length d
           \<and> (\<forall>pl \<in> set placements.
                 protation (d' ! nat (plPageIndex pl)) = 0
                 \<and> pwidth (d' ! nat (plPageIndex pl)) = visualWidth (d ! nat (plPageIndex pl))
                 \<and> pheight (d' ! nat (plPageIndex pl)) = visualHeight (d ! nat (plPageIndex pl)))"
proof -
  let ?byPage = "placementsByPageOf placements"
  let ?ks = "sortedPageIndicesOf ?byPage"
  let ?rot = "\<exists>k \<in> set ?ks. protation (d ! nat k) \<noteq> 0"
  let ?src = "if ?rot then Some d else None"
  have ks: "set ?ks = plPageIndex ` set placements" by (rule sortedPageIndices_set)
  have valid: "\<forall>k \<in> set ?ks. inRange d k" using assms(1) ks by auto
  have rot: "hasRotatedPagesOf d ?ks = Inr ?rot"
    using valid by (rule hasRotatedPages_ok)
  have 1: "distinct ?ks" by (rule sortedPageIndices_distinct)
  have 2: "\<forall>k \<in> set ?ks. inRange d k \<and> map_of ?byPage k \<noteq> None"
    using valid ks placementsByPage_get by auto
  have 3: "(?src = Some d \<and> length d = length d)
           \<or> (\<forall>k \<in> set ?ks. protation (d ! nat k) = 0)"
    by auto
  from stampPages_ok [OF 1 2 assms(2,3) 3, of "[]"] obtain d' emb' where
    run: "stampPages fontEncodes config ?src ?byPage (d, []) ?ks = Inr (d', emb')"
    and len: "length d' = length d"
    and marks: "\<forall>k \<in> set ?ks. protation (d' ! nat k) = 0
                  \<and> pwidth (d' ! nat k) = visualWidth (d ! nat k)
                  \<and> pheight (d' ! nat k) = visualHeight (d ! nat k)"
    and embs: "set emb' = set [] \<union> (\<lambda>k. d ! nat k) ` {k \<in> set ?ks. protation (d ! nat k) \<noteq> 0}"
    by blast
  have "list_all (\<lambda>embedded. pcontents embedded \<noteq> []) emb'
        \<longleftrightarrow> (\<forall>pl \<in> set placements.
               protation (d ! nat (plPageIndex pl)) \<noteq> 0 \<longrightarrow>
               pcontents (d ! nat (plPageIndex pl)) \<noteq> [])"
    unfolding list_all_iff embs ks by auto
  then have save: "saveEmbedding (d', emb')
        = (if \<forall>pl \<in> set placements.
                 protation (d ! nat (plPageIndex pl)) \<noteq> 0 \<longrightarrow>
                 pcontents (d ! nat (plPageIndex pl)) \<noteq> []
           then Inr (pdfSave d') else Inl MissingPageContents)"
    unfolding saveEmbedding_def snd_conv fst_conv by (simp only:)
  have "applyStamps fontEncodes (Pdf d) placements config = saveEmbedding (d', emb')"
  proof (cases ?rot)
    case True
    then have "stampPages fontEncodes config (Some d) ?byPage (d, []) ?ks = Inr (d', emb')"
      using run by simp
    with True show ?thesis
      by (simp add: applyStamps_def pdfLoad_def Let_def rot)
  next
    case False
    then have "stampPages fontEncodes config None ?byPage (d, []) ?ks = Inr (d', emb')"
      using run by simp
    with False show ?thesis
      by (simp add: applyStamps_def pdfLoad_def Let_def rot)
  qed
  with save len marks ks show ?thesis by auto
qed

text \<open>
  What the claim says, where it holds: every placement names a page, the font encodes
  the two texts, and each rotated page under a placement has a content stream.
\<close>

lemma applyStamps_rotation_normalised:
  assumes "\<forall>p \<in> set placements. inRange d (plPageIndex p)"
    and "fontEncodes (cfgLawyerName config)" and "fontEncodes (cfgBottomText config)"
    and "\<forall>p \<in> set placements.
           protation (d ! nat (plPageIndex p)) \<noteq> 0 \<longrightarrow> pcontents (d ! nat (plPageIndex p)) \<noteq> []"
    and "pl \<in> set placements"
  shows "\<exists>d'. applyStamps fontEncodes (Pdf d) placements config = Inr (Pdf d')
           \<and> length d' = length d
           \<and> (protation (d ! nat (plPageIndex pl)) = 90
                \<or> protation (d ! nat (plPageIndex pl)) = 270 \<longrightarrow>
              protation (d' ! nat (plPageIndex pl)) = 0
              \<and> pwidth (d' ! nat (plPageIndex pl)) = pheight (d ! nat (plPageIndex pl))
              \<and> pheight (d' ! nat (plPageIndex pl)) = pwidth (d ! nat (plPageIndex pl)))
           \<and> (protation (d ! nat (plPageIndex pl)) = 180 \<longrightarrow>
              protation (d' ! nat (plPageIndex pl)) = 0
              \<and> pwidth (d' ! nat (plPageIndex pl)) = pwidth (d ! nat (plPageIndex pl))
              \<and> pheight (d' ! nat (plPageIndex pl)) = pheight (d ! nat (plPageIndex pl)))"
proof -
  from applyStamps_ok [OF assms(1,2,3)] assms(4) obtain d' where
    run: "applyStamps fontEncodes (Pdf d) placements config = Inr (pdfSave d')"
    and len: "length d' = length d"
    and marks: "\<forall>p \<in> set placements.
                 protation (d' ! nat (plPageIndex p)) = 0
                 \<and> pwidth (d' ! nat (plPageIndex p)) = visualWidth (d ! nat (plPageIndex p))
                 \<and> pheight (d' ! nat (plPageIndex p)) = visualHeight (d ! nat (plPageIndex p))"
    by auto
  from assms(1,5) have "inRange d (plPageIndex pl)" by blast
  then have "d \<noteq> []" by (auto simp: inRange_def getPageCount_def)
  with len have "pdfSave d' = Pdf d'" by (auto simp: pdfSave_def)
  with run len marks assms(5) show ?thesis
    by (auto simp: visualWidth_def visualHeight_def)
qed

text \<open>
  Where it does not: a rotated page under a placement that has no content stream makes
  \<open>applyStamps\<close> fail, whatever else is in the document.
\<close>

lemma applyStamps_missing_contents:
  assumes "\<forall>p \<in> set placements. inRange d (plPageIndex p)"
    and "fontEncodes (cfgLawyerName config)" and "fontEncodes (cfgBottomText config)"
    and "pl \<in> set placements"
    and "protation (d ! nat (plPageIndex pl)) \<noteq> 0"
    and "pcontents (d ! nat (plPageIndex pl)) = []"
  shows "applyStamps fontEncodes (Pdf d) placements config = Inl MissingPageContents"
proof -
  have "\<not> (\<forall>p \<in> set placements.
           protation (d ! nat (plPageIndex p)) \<noteq> 0 \<longrightarrow> pcontents (d ! nat (plPageIndex p)) \<noteq> [])"
    using assms(4,5,6) by blast
  with applyStamps_ok [OF assms(1,2,3)] show ?thesis by auto
qed

text \<open>
  C2, on a page it fails for. One page of size \<open>100 \<times> 200\<close> with rotation flag 90 and
  no content stream, one placement on it: \<open>applyStamps\<close> registers the page for
  embedding, \<open>save\<close> throws, and nothing is returned, where the claim has a page of
  size \<open>200 \<times> 100\<close> without rotation flag. The same page without the flag is stamped,
  and so is the rotated page once it has a content stream.
\<close>

theorem applyStamps_blank_rotated_page:
  "applyStamps (\<lambda>t. True) (Pdf [Page 100 200 90 []])
     [\<lparr>plPageIndex = 0, plX = 30, plY = 40, plNumber = 1\<rparr>]
     \<lparr>cfgLawyerName = ''N'', cfgBottomText = ''B'', cfgRadius = 59.528\<rparr>
   = Inl MissingPageContents
   \<and> applyStamps (\<lambda>t. True) (Pdf [Page 100 200 0 []])
       [\<lparr>plPageIndex = 0, plX = 30, plY = 40, plNumber = 1\<rparr>]
       \<lparr>cfgLawyerName = ''N'', cfgBottomText = ''B'', cfgRadius = 59.528\<rparr>
     = Inr (Pdf [Page 100 200 0 [DrawStamp 30 40 10 ''N'' ''B'' 1]])
   \<and> applyStamps (\<lambda>t. True) (Pdf [Page 100 200 90 [Original 0]])
       [\<lparr>plPageIndex = 0, plX = 30, plY = 40, plNumber = 1\<rparr>]
       \<lparr>cfgLawyerName = ''N'', cfgBottomText = ''B'', cfgRadius = 59.528\<rparr>
     = Inr (Pdf [Page 200 100 0
                   [DrawPage (Page 100 200 90 [Original 0]) (Some (0, 100, - 90)),
                    DrawStamp 30 40 10 ''N'' ''B'' 1]])"
  by (simp add: applyStamps_def pdfLoad_def pdfSave_def saveEmbedding_def placementsByPageOf_def
        addPlacement_def sortedPageIndicesOf_def getPage_def inRange_def getPageCount_def
        stampPage_def removePage_def insertPage_def drawPlacements_def drawStampOnPage_def
        drawPage_def drawPageOptions_def A4_SHORT_def)

end
